theory Spec2Isabelle
  imports Main "HOL-Library.Word"
begin

unbundle bit_operations_syntax

section \<open>The CCF columnar file format: writer, reader and type inference\<close>

text \<open>
  A shallow embedding of \<^verbatim>\<open>custom_columnar.py\<close>. A Python \<^verbatim>\<open>str\<close> is the list of
  its code points, a \<^verbatim>\<open>bytes\<close> object a list of 8-bit words, a Python \<^verbatim>\<open>int\<close> an
  \<open>int\<close> (a \<open>nat\<close> where it is a length or a count). Every exception the code can
  raise is a value \<open>Inl e\<close>; the file written at \<^verbatim>\<open>out_path\<close> is the byte list the
  writer returns.
\<close>

subsection \<open>Values, errors and the interpreter's environment\<close>

type_synonym byte = "8 word"
type_synonym bytes = "byte list"
type_synonym str = "nat list"

datatype error =
    ValueError
  | StructError
  | KeyError
  | IndexError
  | UnicodeEncodeError
  | UnicodeDecodeError
  | ZlibError
  | OverflowError

type_synonym 'a result = "error + 'a"

definition ebind :: "'a result \<Rightarrow> ('a \<Rightarrow> 'b result) \<Rightarrow> 'b result" where
  "ebind m f = (case m of Inl e \<Rightarrow> Inl e | Inr x \<Rightarrow> f x)"

text \<open>
  What the module takes from the Python runtime and not from its own text:
  \<^verbatim>\<open>zlib.compress\<close> and \<^verbatim>\<open>zlib.decompress\<close>; \<^verbatim>\<open>float(v)\<close> on a \<^verbatim>\<open>str\<close> (the
  IEEE-754 bit pattern of the double, \<open>None\<close> when it raises) and \<^verbatim>\<open>repr\<close> of a
  double; the two tables of the Unicode database that \<^verbatim>\<open>int(v)\<close> consults for a
  character outside ASCII; and the interpreter's limit on the number of digits
  \<^verbatim>\<open>int(v)\<close> accepts (0 switches the limit off).
\<close>

record pyenv =
  zlib_compress :: "bytes \<Rightarrow> bytes"
  zlib_decompress :: "bytes \<Rightarrow> bytes result"
  float_of_str :: "str \<Rightarrow> 64 word option"
  float_repr :: "64 word \<Rightarrow> str"
  unicode_isspace :: "nat \<Rightarrow> bool"
  unicode_todecimal :: "nat \<Rightarrow> nat option"
  int_max_str_digits :: nat

text \<open>A literal of the model's text type.\<close>

definition lit :: "string \<Rightarrow> str" where
  "lit s = map of_char s"

subsection \<open>The built-in \<^verbatim>\<open>int(v)\<close> and \<^verbatim>\<open>str(n)\<close>\<close>

text \<open>
  \<^verbatim>\<open>int(v)\<close> on a string first maps every character outside ASCII to a space
  (Unicode white space), to an ASCII digit (Unicode decimal digit) or to a character
  no number contains, then reads: white space, an optional sign, decimal digits with
  single underscores between them, white space.
\<close>

definition is_space :: "nat \<Rightarrow> bool" where
  "is_space c = (c = 32 \<or> (9 \<le> c \<and> c \<le> 13))"

definition is_digit :: "nat \<Rightarrow> bool" where
  "is_digit c = (48 \<le> c \<and> c \<le> 57)"

definition to_ascii :: "pyenv \<Rightarrow> nat \<Rightarrow> nat" where
  "to_ascii env c =
     (if c < 127 then c
      else if unicode_isspace env c then 32
      else (case unicode_todecimal env c of Some d \<Rightarrow> 48 + d mod 10 | None \<Rightarrow> 63))"

fun double_underscore :: "nat list \<Rightarrow> bool" where
  "double_underscore (a # b # cs) = ((a = 95 \<and> b = 95) \<or> double_underscore (b # cs))"
| "double_underscore _ = False"

definition digits_value :: "nat list \<Rightarrow> nat" where
  "digits_value ds = foldl (\<lambda>a d. 10 * a + (d - 48)) 0 ds"

definition long_from_string :: "nat \<Rightarrow> nat list \<Rightarrow> int option" where
  "long_from_string lim s =
     (let s1 = dropWhile is_space s;
          neg = (s1 \<noteq> [] \<and> hd s1 = 45);
          s2 = (if s1 \<noteq> [] \<and> (hd s1 = 43 \<or> hd s1 = 45) then tl s1 else s1);
          body = takeWhile (\<lambda>c. is_digit c \<or> c = 95) s2;
          rest = dropWhile (\<lambda>c. is_digit c \<or> c = 95) s2;
          ds = filter is_digit body
      in if body = [] \<or> hd body = 95 \<or> last body = 95 \<or> double_underscore body then None
         else if 640 < length ds \<and> 0 < lim \<and> lim < length ds then None
         else if dropWhile is_space rest \<noteq> [] then None
         else Some (if neg then - int (digits_value ds) else int (digits_value ds)))"

definition py_int :: "pyenv \<Rightarrow> str \<Rightarrow> int result" where
  "py_int env v =
     (case long_from_string (int_max_str_digits env) (map (to_ascii env) v) of
        None \<Rightarrow> Inl ValueError
      | Some n \<Rightarrow> Inr n)"

fun nat_digits :: "nat \<Rightarrow> nat list" where
  "nat_digits n = (if n < 10 then [48 + n] else nat_digits (n div 10) @ [48 + n mod 10])"

declare nat_digits.simps [simp del]

definition py_str :: "int \<Rightarrow> str" where
  "py_str n = (if n < 0 then 45 # nat_digits (nat (- n)) else nat_digits (nat n))"

subsection \<open>Type inference\<close>

definition DT_INT32 :: int where "DT_INT32 = 0"
definition DT_FLOAT64 :: int where "DT_FLOAT64 = 1"
definition DT_STRING :: int where "DT_STRING = 2"

text \<open>
  The loop of \<^verbatim>\<open>infer_type\<close> with its two flags: \<^verbatim>\<open>float(v)\<close> is tried only on a
  value that \<^verbatim>\<open>int(v)\<close> has rejected.
\<close>

fun infer_loop :: "pyenv \<Rightarrow> str list \<Rightarrow> bool \<Rightarrow> bool \<Rightarrow> bool \<times> bool" where
  "infer_loop env [] is_int is_float = (is_int, is_float)"
| "infer_loop env (v # vs) is_int is_float =
     (if v = [] then infer_loop env vs is_int is_float
      else (case py_int env v of
              Inr _ \<Rightarrow> infer_loop env vs is_int is_float
            | Inl _ \<Rightarrow>
                (case float_of_str env v of
                   Some _ \<Rightarrow> infer_loop env vs False is_float
                 | None \<Rightarrow> infer_loop env vs False False)))"

definition infer_type :: "pyenv \<Rightarrow> str list \<Rightarrow> int" where
  "infer_type env values =
     (case infer_loop env values True True of
        (is_int, is_float) \<Rightarrow>
          if is_int then DT_INT32 else if is_float then DT_FLOAT64 else DT_STRING)"

subsection \<open>Codec primitives: \<^verbatim>\<open>struct\<close> and UTF-8\<close>

fun le_bytes :: "nat \<Rightarrow> nat \<Rightarrow> bytes" where
  "le_bytes 0 x = []"
| "le_bytes (Suc k) x = of_nat (x mod 256) # le_bytes k (x div 256)"

fun le_nat :: "bytes \<Rightarrow> nat" where
  "le_nat [] = 0"
| "le_nat (b # bs) = unat b + 256 * le_nat bs"

text \<open>
  \<^verbatim>\<open>struct.pack\<close> with the formats \<^verbatim>\<open><B\<close>, \<^verbatim>\<open><H\<close>, \<^verbatim>\<open><I\<close>, \<^verbatim>\<open><Q\<close> (an unsigned
  integer of 1, 2, 4, 8 bytes), \<^verbatim>\<open><i\<close> and \<^verbatim>\<open><d\<close>: a value out of the format's range
  raises \<^verbatim>\<open>struct.error\<close>.
\<close>

definition pack_uint :: "nat \<Rightarrow> int \<Rightarrow> bytes result" where
  "pack_uint k x = (if 0 \<le> x \<and> x < 256 ^ k then Inr (le_bytes k (nat x)) else Inl StructError)"

definition pack_u8 :: "int \<Rightarrow> bytes result" where "pack_u8 x = pack_uint 1 x"
definition pack_u16 :: "int \<Rightarrow> bytes result" where "pack_u16 x = pack_uint 2 x"
definition pack_u32 :: "int \<Rightarrow> bytes result" where "pack_u32 x = pack_uint 4 x"
definition pack_u64 :: "int \<Rightarrow> bytes result" where "pack_u64 x = pack_uint 8 x"

definition pack_i32 :: "int \<Rightarrow> bytes result" where
  "pack_i32 x =
     (if - (2 ^ 31) \<le> x \<and> x < 2 ^ 31 then Inr (le_bytes 4 (nat (x mod 2 ^ 32)))
      else Inl StructError)"

definition pack_f64 :: "64 word \<Rightarrow> bytes" where
  "pack_f64 w = le_bytes 8 (unat w)"

text \<open>\<^verbatim>\<open>struct.unpack\<close> wants a buffer of exactly the format's size.\<close>

definition unpack_uint :: "nat \<Rightarrow> bytes \<Rightarrow> nat result" where
  "unpack_uint k bs = (if length bs = k then Inr (le_nat bs) else Inl StructError)"

definition unpack_i32 :: "bytes \<Rightarrow> int result" where
  "unpack_i32 bs =
     (if length bs = 4
      then Inr (if le_nat bs < 2 ^ 31 then int (le_nat bs) else int (le_nat bs) - 2 ^ 32)
      else Inl StructError)"

definition unpack_f64 :: "bytes \<Rightarrow> 64 word result" where
  "unpack_f64 bs = (if length bs = 8 then Inr (of_nat (le_nat bs)) else Inl StructError)"

text \<open>\<^verbatim>\<open>struct.unpack_from(fmt, buffer, p)\<close> wants the format's size available at \<open>p\<close>.\<close>

definition unpack_from :: "nat \<Rightarrow> bytes \<Rightarrow> nat \<Rightarrow> nat result" where
  "unpack_from k buf p =
     (if p + k \<le> length buf then Inr (le_nat (take k (drop p buf))) else Inl StructError)"

text \<open>
  \<^verbatim>\<open>f.read(n)\<close> on a file or a \<^verbatim>\<open>BytesIO\<close>: the stream is the list of the bytes not
  read yet; a read returns at most \<open>n\<close> of them and the stream that remains.
\<close>

definition f_read :: "bytes \<Rightarrow> nat \<Rightarrow> bytes \<times> bytes" where
  "f_read s n = (take n s, drop n s)"

text \<open>The slice \<^verbatim>\<open>b[lo:hi]\<close> of Python for indices that are not negative.\<close>

definition slice :: "'a list \<Rightarrow> nat \<Rightarrow> nat \<Rightarrow> 'a list" where
  "slice b lo hi = take (hi - lo) (drop lo b)"

text \<open>
  \<^verbatim>\<open>str.encode('utf-8')\<close>: a surrogate raises; a number that is no code point is
  in no \<^verbatim>\<open>str\<close> and is refused as well.
\<close>

definition utf8_char :: "nat \<Rightarrow> bytes result" where
  "utf8_char c =
     (if c < 0x80 then Inr [of_nat c]
      else if c < 0x800 then Inr [of_nat (0xC0 + c div 64), of_nat (0x80 + c mod 64)]
      else if 0xD800 \<le> c \<and> c < 0xE000 then Inl UnicodeEncodeError
      else if c < 0x10000 then
        Inr [of_nat (0xE0 + c div 4096), of_nat (0x80 + c div 64 mod 64), of_nat (0x80 + c mod 64)]
      else if c < 0x110000 then
        Inr [of_nat (0xF0 + c div 262144), of_nat (0x80 + c div 4096 mod 64),
             of_nat (0x80 + c div 64 mod 64), of_nat (0x80 + c mod 64)]
      else Inl UnicodeEncodeError)"

fun utf8_encode :: "str \<Rightarrow> bytes result" where
  "utf8_encode [] = Inr []"
| "utf8_encode (c # cs) =
     ebind (utf8_char c) (\<lambda>b. ebind (utf8_encode cs) (\<lambda>bs. Inr (b @ bs)))"

text \<open>
  \<^verbatim>\<open>bytes.decode('utf-8')\<close>, strict: a stray or missing continuation byte, an
  overlong form, a surrogate and a value above \<open>0x10FFFF\<close> all raise.
\<close>

definition cont :: "byte \<Rightarrow> bool" where
  "cont b = (0x80 \<le> unat b \<and> unat b < 0xC0)"

fun utf8_decode :: "bytes \<Rightarrow> str result" where
  "utf8_decode [] = Inr []"
| "utf8_decode (b0 # bs) =
     (let a = unat b0 in
      if a < 0x80 then ebind (utf8_decode bs) (\<lambda>cs. Inr (a # cs))
      else if 0xC2 \<le> a \<and> a < 0xE0 then
        (case bs of
           b1 # r \<Rightarrow>
             if cont b1
             then ebind (utf8_decode r)
                    (\<lambda>cs. Inr (((a - 0xC0) * 64 + (unat b1 - 0x80)) # cs))
             else Inl UnicodeDecodeError
         | _ \<Rightarrow> Inl UnicodeDecodeError)
      else if 0xE0 \<le> a \<and> a < 0xF0 then
        (case bs of
           b1 # b2 # r \<Rightarrow>
             (let c = (a - 0xE0) * 4096 + (unat b1 - 0x80) * 64 + (unat b2 - 0x80) in
              if cont b1 \<and> cont b2 \<and> 0x800 \<le> c \<and> \<not> (0xD800 \<le> c \<and> c < 0xE000)
              then ebind (utf8_decode r) (\<lambda>cs. Inr (c # cs))
              else Inl UnicodeDecodeError)
         | _ \<Rightarrow> Inl UnicodeDecodeError)
      else if 0xF0 \<le> a \<and> a < 0xF5 then
        (case bs of
           b1 # b2 # b3 # r \<Rightarrow>
             (let c = (a - 0xF0) * 262144 + (unat b1 - 0x80) * 4096
                      + (unat b2 - 0x80) * 64 + (unat b3 - 0x80) in
              if cont b1 \<and> cont b2 \<and> cont b3 \<and> 0x10000 \<le> c \<and> c < 0x110000
              then ebind (utf8_decode r) (\<lambda>cs. Inr (c # cs))
              else Inl UnicodeDecodeError)
         | _ \<Rightarrow> Inl UnicodeDecodeError)
      else Inl UnicodeDecodeError)"

subsection \<open>The writer\<close>

definition MAGIC :: bytes where
  "MAGIC = [67, 67, 70, 118, 49, 0, 0]"

definition VERSION :: int where
  "VERSION = 1"

record ColumnMeta =
  name :: str
  dtype :: int
  offset :: nat
  compressed_size :: nat
  uncompressed_size :: nat

text \<open>
  Lines 71 to 75: every row appends one cell to each of the \<^verbatim>\<open>num_cols\<close> lists, the
  empty string where the row is too short.
\<close>

definition cell :: "str list \<Rightarrow> nat \<Rightarrow> str" where
  "cell r i = (if i < length r then r ! i else [])"

definition append_row :: "nat \<Rightarrow> str list list \<Rightarrow> str list \<Rightarrow> str list list" where
  "append_row num_cols cvs r = map (\<lambda>i. cvs ! i @ [cell r i]) [0..<num_cols]"

definition cols_values :: "nat \<Rightarrow> str list list \<Rightarrow> str list list" where
  "cols_values num_cols rows = foldl (append_row num_cols) (replicate num_cols []) rows"

text \<open>Lines 84 to 90: the null bitmap, one bit per row, set where the value is empty.\<close>

fun mark_nulls :: "nat \<Rightarrow> str list \<Rightarrow> bytes \<Rightarrow> bytes result" where
  "mark_nulls i [] bm = Inr bm"
| "mark_nulls i (v # vs) bm =
     (if v = [] then
        (if i div 8 < length bm
         then mark_nulls (Suc i) vs (bm[i div 8 := bm ! (i div 8) OR push_bit (i mod 8) 1])
         else Inl IndexError)
      else mark_nulls (Suc i) vs bm)"

definition build_null_bitmap :: "nat \<Rightarrow> str list \<Rightarrow> bytes result" where
  "build_null_bitmap num_rows values =
     mark_nulls 0 values (replicate ((num_rows + 7) div 8) 0)"

text \<open>Lines 96 to 101, 102 to 107 and 108 to 121: the payload of each type.\<close>

fun int32_payload :: "pyenv \<Rightarrow> str list \<Rightarrow> bytes result" where
  "int32_payload env [] = Inr []"
| "int32_payload env (v # vs) =
     ebind (if v = [] then pack_i32 0 else ebind (py_int env v) pack_i32)
       (\<lambda>b. ebind (int32_payload env vs) (\<lambda>bs. Inr (b @ bs)))"

fun float64_payload :: "pyenv \<Rightarrow> str list \<Rightarrow> bytes result" where
  "float64_payload env [] = Inr []"
| "float64_payload env (v # vs) =
     ebind (if v = [] then Inr (pack_f64 0)
            else (case float_of_str env v of
                    None \<Rightarrow> Inl ValueError
                  | Some w \<Rightarrow> Inr (pack_f64 w)))
       (\<lambda>b. ebind (float64_payload env vs) (\<lambda>bs. Inr (b @ bs)))"

fun string_offsets :: "str list \<Rightarrow> nat list \<Rightarrow> bytes \<Rightarrow> (nat list \<times> bytes) result" where
  "string_offsets [] offsets strings_buf = Inr (offsets, strings_buf)"
| "string_offsets (v # vs) offsets strings_buf =
     (if v = [] then string_offsets vs (offsets @ [last offsets]) strings_buf
      else ebind (utf8_encode v)
             (\<lambda>b. string_offsets vs (offsets @ [last offsets + length b]) (strings_buf @ b)))"

fun pack_offsets :: "nat list \<Rightarrow> bytes result" where
  "pack_offsets [] = Inr []"
| "pack_offsets (off # offs) =
     ebind (pack_u32 (int off)) (\<lambda>b. ebind (pack_offsets offs) (\<lambda>bs. Inr (b @ bs)))"

definition string_payload :: "str list \<Rightarrow> bytes result" where
  "string_payload values =
     ebind (string_offsets values [0] [])
       (\<lambda>(offsets, strings_buf).
          ebind (pack_offsets offsets) (\<lambda>ob. Inr (ob @ strings_buf)))"

text \<open>Lines 83 to 125: the uncompressed buffer of one column.\<close>

definition column_buffer :: "pyenv \<Rightarrow> nat \<Rightarrow> int \<Rightarrow> str list \<Rightarrow> bytes result" where
  "column_buffer env num_rows dt values =
     ebind (build_null_bitmap num_rows values)
       (\<lambda>null_bitmap.
          ebind (pack_u32 (int (length null_bitmap)))
            (\<lambda>nb.
               ebind (if dt = DT_INT32 then int32_payload env values
                      else if dt = DT_FLOAT64 then float64_payload env values
                      else if dt = DT_STRING then string_payload values
                      else Inl ValueError)
                 (\<lambda>payload. Inr (nb @ null_bitmap @ payload))))"

text \<open>
  Lines 80 to 132, the loop over \<^verbatim>\<open>zip(header_cols, cols_values)\<close>. The offset of a
  new \<^verbatim>\<open>ColumnMeta\<close> is not read before line 154 sets it; the model holds 0 there.
\<close>

fun encode_columns ::
  "pyenv \<Rightarrow> nat \<Rightarrow> (str \<times> int) list \<Rightarrow> str list list \<Rightarrow> (bytes list \<times> ColumnMeta list) result"
where
  "encode_columns env num_rows ((nm, dt) # hs) (values # cvs) =
     ebind (column_buffer env num_rows dt values)
       (\<lambda>uncompressed.
          let compressed = zlib_compress env uncompressed;
              meta = \<lparr>name = nm, dtype = dt, offset = 0,
                      compressed_size = length compressed,
                      uncompressed_size = length uncompressed\<rparr>
          in ebind (encode_columns env num_rows hs cvs)
               (\<lambda>(blocks, meta_list). Inr (compressed # blocks, meta # meta_list)))"
| "encode_columns env num_rows _ _ = Inr ([], [])"

text \<open>
  Lines 136 to 144 (\<open>final = False\<close>, the offset field holds 0) and lines 159 to
  166 (\<open>final = True\<close>): one directory entry for each element of \<^verbatim>\<open>meta_list\<close>, its
  name and type taken from \<^verbatim>\<open>header_cols[i]\<close>.
\<close>

fun build_header :: "bool \<Rightarrow> (str \<times> int) list \<Rightarrow> ColumnMeta list \<Rightarrow> bytes result" where
  "build_header final hcs [] = Inr []"
| "build_header final [] (meta # metas) = Inl IndexError"
| "build_header final (hc # hcs) (meta # metas) =
     ebind (utf8_encode (fst hc))
       (\<lambda>name_b.
          ebind (pack_u16 (int (length name_b)))
            (\<lambda>b1.
               ebind (pack_u8 (snd hc))
                 (\<lambda>b2.
                    ebind (pack_u64 (if final then int (offset meta) else 0))
                      (\<lambda>b3.
                         ebind (pack_u64 (int (compressed_size meta)))
                           (\<lambda>b4.
                              ebind (pack_u64 (int (uncompressed_size meta)))
                                (\<lambda>b5.
                                   ebind (build_header final hcs metas)
                                     (\<lambda>bs. Inr (b1 @ name_b @ b2 @ b3 @ b4 @ b5 @ bs))))))))"

text \<open>Lines 151 to 155.\<close>

fun assign_offsets :: "nat \<Rightarrow> ColumnMeta list \<Rightarrow> ColumnMeta list" where
  "assign_offsets current [] = []"
| "assign_offsets current (meta # metas) =
     meta\<lparr>offset := current\<rparr> # assign_offsets (current + compressed_size meta) metas"

text \<open>\<^verbatim>\<open>CCFWriter.write\<close>; the result is the content of the file at \<^verbatim>\<open>out_path\<close>.\<close>

definition CCFWriter_write :: "pyenv \<Rightarrow> (str \<times> int) list \<Rightarrow> str list list \<Rightarrow> bytes result" where
  "CCFWriter_write env header_cols rows =
     (let num_rows = length rows;
          num_cols = length header_cols
      in ebind (encode_columns env num_rows header_cols (cols_values num_cols rows))
           (\<lambda>(blocks, meta_list0).
              ebind (build_header False header_cols meta_list0)
                (\<lambda>header_content0.
                   let header_size0 = length header_content0;
                       prefix_size = length MAGIC + 1 + 4 + 8 + 2;
                       meta_list = assign_offsets (prefix_size + header_size0) meta_list0
                   in ebind (build_header True header_cols meta_list)
                        (\<lambda>header_content.
                           let header_size = length header_content
                           in ebind (pack_u8 VERSION)
                                (\<lambda>v.
                                   ebind (pack_u32 (int header_size))
                                     (\<lambda>hs.
                                        ebind (pack_u64 (int num_rows))
                                          (\<lambda>nr.
                                             ebind (pack_u16 (int (length meta_list)))
                                               (\<lambda>nc.
                                                  Inr (MAGIC @ v @ hs @ nr @ nc
                                                       @ header_content @ concat blocks)))))))))"

subsection \<open>The reader\<close>

text \<open>
  A \<^verbatim>\<open>CCFReader\<close>: \<open>path\<close> stands for the content of the file at \<^verbatim>\<open>self.path\<close>, which
  every read opens again.
\<close>

record CCFReader =
  path :: bytes
  num_rows :: nat
  num_cols :: nat
  columns_meta :: "ColumnMeta list"

text \<open>Lines 202 to 213: the directory entries, from position \<open>p\<close> of the header.\<close>

fun read_metas :: "bytes \<Rightarrow> nat \<Rightarrow> nat \<Rightarrow> ColumnMeta list result" where
  "read_metas header_bytes 0 p = Inr []"
| "read_metas header_bytes (Suc n) p =
     ebind (unpack_from 2 header_bytes p)
       (\<lambda>name_len.
          ebind (utf8_decode (slice header_bytes (p + 2) (p + 2 + name_len)))
            (\<lambda>nm.
               ebind (unpack_from 1 header_bytes (p + 2 + name_len))
                 (\<lambda>dt.
                    ebind (unpack_from 8 header_bytes (p + 2 + name_len + 1))
                      (\<lambda>off.
                         ebind (unpack_from 8 header_bytes (p + 2 + name_len + 1 + 8))
                           (\<lambda>comp_size.
                              ebind (unpack_from 8 header_bytes (p + 2 + name_len + 1 + 8 + 8))
                                (\<lambda>uncomp_size.
                                   ebind (read_metas header_bytes n
                                            (p + 2 + name_len + 1 + 8 + 8 + 8))
                                     (\<lambda>metas.
                                        Inr (\<lparr>name = nm, dtype = int dt, offset = off,
                                               compressed_size = comp_size,
                                               uncompressed_size = uncomp_size\<rparr>
                                             # metas))))))))"

text \<open>
  \<^verbatim>\<open>CCFReader.__init__\<close> with \<^verbatim>\<open>_read_header\<close> on a file of content \<open>f\<close>. The version
  is read and used nowhere.
\<close>

definition read_header :: "bytes \<Rightarrow> CCFReader result" where
  "read_header f =
     (case f_read f (length MAGIC) of
        (magic, f1) \<Rightarrow>
          if magic \<noteq> MAGIC then Inl ValueError
          else (case f_read f1 1 of
            (b1, f2) \<Rightarrow>
              ebind (unpack_uint 1 b1)
                (\<lambda>version.
                   case f_read f2 4 of
                     (b2, f3) \<Rightarrow>
                       ebind (unpack_uint 4 b2)
                         (\<lambda>header_size.
                            case f_read f3 8 of
                              (b3, f4) \<Rightarrow>
                                ebind (unpack_uint 8 b3)
                                  (\<lambda>nrows.
                                     case f_read f4 2 of
                                       (b4, f5) \<Rightarrow>
                                         ebind (unpack_uint 2 b4)
                                           (\<lambda>ncols.
                                              case f_read f5 header_size of
                                                (header_bytes, f6) \<Rightarrow>
                                                  ebind (read_metas header_bytes ncols 0)
                                                    (\<lambda>metas.
                                                       Inr \<lparr>path = f, num_rows = nrows,
                                                            num_cols = ncols,
                                                            columns_meta = metas\<rparr>)))))))"

text \<open>Lines 220 to 226: the first entry of that name.\<close>

fun find_meta :: "ColumnMeta list \<Rightarrow> str \<Rightarrow> ColumnMeta option" where
  "find_meta [] col_name = None"
| "find_meta (m # ms) col_name = (if name m = col_name then Some m else find_meta ms col_name)"

text \<open>Lines 234 to 237.\<close>

definition is_null :: "bytes \<Rightarrow> nat \<Rightarrow> bool result" where
  "is_null null_bitmap i =
     (if i div 8 < length null_bitmap
      then Inr (drop_bit (i mod 8) (null_bitmap ! (i div 8)) AND 1 = 1)
      else Inl IndexError)"

text \<open>Lines 240 to 242, rows \<open>i\<close> to \<open>i + n - 1\<close>, reading from the stream \<open>buf\<close>.\<close>

fun read_int32s :: "bytes \<Rightarrow> nat \<Rightarrow> nat \<Rightarrow> bytes \<Rightarrow> str option list result" where
  "read_int32s null_bitmap i 0 buf = Inr []"
| "read_int32s null_bitmap i (Suc n) buf =
     (case f_read buf 4 of
        (d, buf') \<Rightarrow>
          ebind (unpack_i32 d)
            (\<lambda>v. ebind (is_null null_bitmap i)
                   (\<lambda>nl. ebind (read_int32s null_bitmap (Suc i) n buf')
                          (\<lambda>values. Inr ((if nl then None else Some (py_str v)) # values)))))"

text \<open>Lines 244 to 246.\<close>

fun read_float64s :: "pyenv \<Rightarrow> bytes \<Rightarrow> nat \<Rightarrow> nat \<Rightarrow> bytes \<Rightarrow> str option list result" where
  "read_float64s env null_bitmap i 0 buf = Inr []"
| "read_float64s env null_bitmap i (Suc n) buf =
     (case f_read buf 8 of
        (d, buf') \<Rightarrow>
          ebind (unpack_f64 d)
            (\<lambda>v. ebind (is_null null_bitmap i)
                   (\<lambda>nl. ebind (read_float64s env null_bitmap (Suc i) n buf')
                          (\<lambda>values. Inr ((if nl then None else Some (float_repr env v)) # values)))))"

text \<open>Line 248: \<open>n\<close> offsets from the stream, and the stream after them.\<close>

fun read_offsets :: "nat \<Rightarrow> bytes \<Rightarrow> (nat list \<times> bytes) result" where
  "read_offsets 0 buf = Inr ([], buf)"
| "read_offsets (Suc n) buf =
     (case f_read buf 4 of
        (d, buf') \<Rightarrow>
          ebind (unpack_uint 4 d)
            (\<lambda>off. ebind (read_offsets n buf')
                     (\<lambda>(offsets, rest). Inr (off # offsets, rest))))"

text \<open>Lines 250 to 255.\<close>

fun read_strings :: "bytes \<Rightarrow> nat list \<Rightarrow> bytes \<Rightarrow> nat \<Rightarrow> nat \<Rightarrow> str option list result" where
  "read_strings null_bitmap offsets concat_buf i 0 = Inr []"
| "read_strings null_bitmap offsets concat_buf i (Suc n) =
     ebind (is_null null_bitmap i)
       (\<lambda>nl. ebind (if nl then Inr None
                     else if Suc i < length offsets
                     then ebind (utf8_decode (slice concat_buf (offsets ! i) (offsets ! Suc i)))
                            (\<lambda>s. Inr (Some s))
                     else Inl IndexError)
                (\<lambda>x. ebind (read_strings null_bitmap offsets concat_buf (Suc i) n)
                       (\<lambda>values. Inr (x # values))))"

text \<open>Lines 231 to 258: decoding the decompressed buffer \<open>un\<close> of a column.\<close>

definition decode_column :: "pyenv \<Rightarrow> int \<Rightarrow> nat \<Rightarrow> bytes \<Rightarrow> str option list result" where
  "decode_column env dt nrows un =
     (case f_read un 4 of
        (d, buf1) \<Rightarrow>
          ebind (unpack_uint 4 d)
            (\<lambda>nb_len.
               case f_read buf1 nb_len of
                 (null_bitmap, buf2) \<Rightarrow>
                   if dt = DT_INT32 then read_int32s null_bitmap 0 nrows buf2
                   else if dt = DT_FLOAT64 then read_float64s env null_bitmap 0 nrows buf2
                   else if dt = DT_STRING then
                     ebind (read_offsets (nrows + 1) buf2)
                       (\<lambda>(offsets, concat_buf).
                          read_strings null_bitmap offsets concat_buf 0 nrows)
                   else Inl ValueError))"

text \<open>
  \<^verbatim>\<open>CCFReader.read_column\<close>; \<open>None\<close> in the result is Python's \<^verbatim>\<open>None\<close>. The position
  given to \<^verbatim>\<open>f.seek\<close> and the count given to \<^verbatim>\<open>f.read\<close> are converted to signed 64-bit
  integers: a recorded offset of \<open>2^63\<close> or more raises \<^verbatim>\<open>ValueError\<close>, a recorded
  compressed size of \<open>2^63\<close> or more raises \<^verbatim>\<open>OverflowError\<close>. A position beyond the end
  of the file is no error: the read there returns no bytes.
\<close>

definition read_column :: "pyenv \<Rightarrow> CCFReader \<Rightarrow> str \<Rightarrow> str option list result" where
  "read_column env rd col_name =
     (case find_meta (columns_meta rd) col_name of
        None \<Rightarrow> Inl KeyError
      | Some meta \<Rightarrow>
          if 2 ^ 63 \<le> offset meta then Inl ValueError
          else if 2 ^ 63 \<le> compressed_size meta then Inl OverflowError
          else
          (case f_read (drop (offset meta) (path rd)) (compressed_size meta) of
             (comp_bytes, _) \<Rightarrow>
               ebind (zlib_decompress env comp_bytes)
                 (\<lambda>un. decode_column env (dtype meta) (num_rows rd) un)))"

subsection \<open>Notions the properties speak of\<close>

text \<open>A value parses as an integer when \<^verbatim>\<open>int(v)\<close> returns, as a float when \<^verbatim>\<open>float(v)\<close> does.\<close>

definition parses_int :: "pyenv \<Rightarrow> str \<Rightarrow> bool" where
  "parses_int env v = (case py_int env v of Inr _ \<Rightarrow> True | Inl _ \<Rightarrow> False)"

definition parses_float :: "pyenv \<Rightarrow> str \<Rightarrow> bool" where
  "parses_float env v = (case float_of_str env v of Some _ \<Rightarrow> True | None \<Rightarrow> False)"

text \<open>
  An environment for the examples. Its codec puts one byte in front of the data and
  its decompression takes it off again; its \<^verbatim>\<open>float\<close> knows a handful of literals;
  its Unicode tables are those of Latin-1, where NEL and NBSP are white space and
  no character beyond ASCII is a digit.
\<close>

definition sample_compress :: "bytes \<Rightarrow> bytes" where
  "sample_compress x = 0x78 # x"

definition sample_decompress :: "bytes \<Rightarrow> bytes result" where
  "sample_decompress bs =
     (case bs of [] \<Rightarrow> Inl ZlibError | b # r \<Rightarrow> if b = 0x78 then Inr r else Inl ZlibError)"

definition sample_float :: "str \<Rightarrow> 64 word option" where
  "sample_float v =
     (if v = lit ''1'' then Some 0x3FF0000000000000
      else if v = lit ''1.5'' then Some 0x3FF8000000000000
      else if v = lit ''2'' then Some 0x4000000000000000
      else if v = lit ''-3.25'' then Some 0xC00A000000000000
      else if v = lit ''2147483648'' then Some 0x41E0000000000000
      else if v = lit ''1.0'' then Some 0x3FF0000000000000
      else if v = lit ''2.0'' then Some 0x4000000000000000
      else if v = lit ''2147483648.0'' then Some 0x41E0000000000000
      else if v = lit ''0.0'' then Some 0
      else None)"

definition sample_repr :: "64 word \<Rightarrow> str" where
  "sample_repr w =
     (if w = 0x3FF0000000000000 then lit ''1.0''
      else if w = 0x3FF8000000000000 then lit ''1.5''
      else if w = 0x4000000000000000 then lit ''2.0''
      else if w = 0xC00A000000000000 then lit ''-3.25''
      else if w = 0x41E0000000000000 then lit ''2147483648.0''
      else lit ''0.0'')"

definition sample_env :: pyenv where
  "sample_env =
     \<lparr>zlib_compress = sample_compress, zlib_decompress = sample_decompress,
      float_of_str = sample_float, float_repr = sample_repr,
      unicode_isspace = (\<lambda>c. c = 0x85 \<or> c = 0xA0),
      unicode_todecimal = (\<lambda>c. None),
      int_max_str_digits = 4300\<rparr>"

text \<open>
  The file the writer produces for the column \<^verbatim>\<open>age\<close> of type \<^verbatim>\<open>INT32\<close> with the rows
  \<^verbatim>\<open>["30"], [""], ["42"], ["7"]\<close> under \<open>sample_env\<close>, with the version byte (at
  position 7) changed from 1 to 2.
\<close>

definition version2_file :: bytes where
  "version2_file =
     [67, 67, 70, 118, 49, 0, 0, 2, 30, 0, 0, 0, 4, 0, 0, 0, 0, 0, 0, 0, 1, 0,
      3, 0, 97, 103, 101, 0, 52, 0, 0, 0, 0, 0, 0, 0, 22, 0, 0, 0, 0, 0, 0, 0,
      21, 0, 0, 0, 0, 0, 0, 0,
      120, 1, 0, 0, 0, 2, 30, 0, 0, 0, 0, 0, 0, 0, 42, 0, 0, 0, 7, 0, 0, 0]"

text \<open>Bit \<open>i\<close> of a null bitmap, as \<^verbatim>\<open>is_null\<close> reads it.\<close>

definition null_bit :: "bytes \<Rightarrow> nat \<Rightarrow> bool" where
  "null_bit null_bitmap i = (drop_bit (i mod 8) (null_bitmap ! (i div 8)) AND 1 = 1)"



text \<open>
  What a reader is to return for the text \<open>v\<close> written into a column of type \<open>dt\<close>:
  null for the empty string, otherwise the decimal rendering of \<^verbatim>\<open>int(v)\<close>, the
  \<^verbatim>\<open>repr\<close> of \<^verbatim>\<open>float(v)\<close>, or the string itself.
\<close>

definition rendered :: "pyenv \<Rightarrow> int \<Rightarrow> str \<Rightarrow> str option" where
  "rendered env dt v =
     (if v = [] then None
      else if dt = DT_INT32 then
        (case py_int env v of Inr n \<Rightarrow> Some (py_str n) | Inl _ \<Rightarrow> None)
      else if dt = DT_FLOAT64 then
        (case float_of_str env v of Some w \<Rightarrow> Some (float_repr env w) | None \<Rightarrow> None)
      else Some v)"

text \<open>
  The size of the header directory as the specification computes it: for each column
  \<open>2 + len(name_utf8) + 1 + 8 + 8 + 8\<close> bytes.
\<close>

definition name_utf8_len :: "str \<Rightarrow> nat" where
  "name_utf8_len nm = (case utf8_encode nm of Inr b \<Rightarrow> length b | Inl _ \<Rightarrow> 0)"

definition directory_size :: "(str \<times> int) list \<Rightarrow> nat" where
  "directory_size header_cols =
     sum_list (map (\<lambda>hc. 2 + name_utf8_len (fst hc) + 1 + 8 + 8 + 8) header_cols)"

text \<open>
  Writing a table and reading one column back, as \<^verbatim>\<open>tests/test_roundtrip.py\<close> does:
  \<^verbatim>\<open>CCFWriter(p).write(schema, rows)\<close>, then \<^verbatim>\<open>CCFReader(p).read_column(col_name)\<close>.
\<close>

definition write_then_read ::
  "pyenv \<Rightarrow> (str \<times> int) list \<Rightarrow> str list list \<Rightarrow> str \<Rightarrow> str option list result" where
  "write_then_read env schema rows col_name =
     ebind (CCFWriter_write env schema rows)
       (\<lambda>f. ebind (read_header f) (\<lambda>rd. read_column env rd col_name))"

text \<open>A call returns when it raises nothing.\<close>

definition returns :: "'a result \<Rightarrow> bool" where
  "returns r = (case r of Inr _ \<Rightarrow> True | Inl _ \<Rightarrow> False)"

text \<open>
  A row made to fit \<open>c\<close> columns: cut after \<open>c\<close> cells, or filled up with empty
  strings on the right.
\<close>

definition fit_row :: "nat \<Rightarrow> str list \<Rightarrow> str list" where
  "fit_row c r = take c r @ replicate (c - length r) []"

text \<open>
  Column \<open>j\<close> of a table of \<open>c\<close> columns: cell \<open>j\<close> of each row made to fit.
\<close>

definition table_column :: "nat \<Rightarrow> str list list \<Rightarrow> nat \<Rightarrow> str list" where
  "table_column c rows j = map (\<lambda>r. fit_row c r ! j) rows"

text \<open>
  A text is well-formed Unicode when each of its code points is a scalar value: below
  \<open>0x110000\<close> and no surrogate. Its UTF-8 form then takes one to four bytes for each
  code point.
\<close>

definition scalar_value :: "nat \<Rightarrow> bool" where
  "scalar_value c = (c < 0x110000 \<and> \<not> (0xD800 \<le> c \<and> c < 0xE000))"

definition well_formed :: "str \<Rightarrow> bool" where
  "well_formed s = list_all scalar_value s"

definition utf8_width :: "nat \<Rightarrow> nat" where
  "utf8_width c = (if c < 0x80 then 1 else if c < 0x800 then 2 else if c < 0x10000 then 3 else 4)"

definition utf8_size :: "str \<Rightarrow> nat" where
  "utf8_size s = sum_list (map utf8_width s)"

text \<open>
  The limits of the format, which has 16 bits for the length of a name and for the
  number of columns and 32 bits for the size of the directory, for the length of a
  null bitmap and for each offset into the strings of a column.
\<close>

definition within_limits :: "(str \<times> int) list \<Rightarrow> str list list \<Rightarrow> bool" where
  "within_limits schema rows =
     (length schema < 2 ^ 16
      \<and> list_all (\<lambda>hc. well_formed (fst hc) \<and> utf8_size (fst hc) < 2 ^ 16) schema
      \<and> sum_list (map (\<lambda>hc. 2 + utf8_size (fst hc) + 1 + 8 + 8 + 8) schema) < 2 ^ 32
      \<and> (length rows + 7) div 8 < 2 ^ 32)"

text \<open>
  The values a column of type \<open>dt\<close> can hold: each one is empty or, according to
  the type, an integer text of the signed 32-bit range, a text that \<^verbatim>\<open>float\<close> accepts,
  or well-formed Unicode; the strings of a \<^verbatim>\<open>STRING\<close> column take less than \<open>2^32\<close>
  bytes together.
\<close>

definition int32_text :: "pyenv \<Rightarrow> str \<Rightarrow> bool" where
  "int32_text env v =
     (case py_int env v of Inr n \<Rightarrow> - (2 ^ 31) \<le> n \<and> n < 2 ^ 31 | Inl _ \<Rightarrow> False)"

definition writable_column :: "pyenv \<Rightarrow> int \<Rightarrow> str list \<Rightarrow> bool" where
  "writable_column env dt vs =
     (if dt = DT_INT32 then list_all (\<lambda>v. v = [] \<or> int32_text env v) vs
      else if dt = DT_FLOAT64 then list_all (\<lambda>v. v = [] \<or> parses_float env v) vs
      else dt = DT_STRING \<and> list_all well_formed vs
           \<and> sum_list (map utf8_size vs) < 2 ^ 32)"

text \<open>
  A double is finite when the eleven bits of its exponent field, bits 52 to 62, are
  not all set.
\<close>

definition finite_f64 :: "64 word \<Rightarrow> bool" where
  "finite_f64 w = (unat w div 2 ^ 52 mod 2 ^ 11 \<noteq> 2 ^ 11 - 1)"


section \<open>Properties\<close>

subsection \<open>Type inference\<close>

lemma infer_loop_eq:
  "infer_loop env vs a b =
     (a \<and> (\<forall>v\<in>set vs. v \<noteq> [] \<longrightarrow> parses_int env v),
      b \<and> (\<forall>v\<in>set vs. v \<noteq> [] \<longrightarrow> parses_int env v \<or> parses_float env v))"
  by (induction vs arbitrary: a b)
     (auto simp: parses_int_def parses_float_def split: sum.splits option.splits)

lemmas py_int_eval = py_int_def long_from_string_def lit_def to_ascii_def is_space_def
  is_digit_def digits_value_def parses_int_def parses_float_def

text \<open>
  C4: \<^verbatim>\<open>infer_type\<close> returns \<^verbatim>\<open>INT32\<close> if every non-empty value parses as an integer,
  otherwise \<^verbatim>\<open>FLOAT64\<close> if every non-empty value parses as a float, otherwise
  \<^verbatim>\<open>STRING\<close>; a column of empty strings only gives \<^verbatim>\<open>INT32\<close>. The float parser is a
  parameter of the model, and the code asks it only about values the integer parser
  has rejected: the hypothesis says of the column what holds of Python's \<^verbatim>\<open>float\<close>,
  that it accepts what \<^verbatim>\<open>int\<close> accepts.
\<close>

theorem infer_type_rule:
  assumes "\<forall>v\<in>set vs. parses_int env v \<longrightarrow> parses_float env v"
  shows "infer_type env vs =
           (if \<forall>v\<in>set vs. v \<noteq> [] \<longrightarrow> parses_int env v then DT_INT32
            else if \<forall>v\<in>set vs. v \<noteq> [] \<longrightarrow> parses_float env v then DT_FLOAT64
            else DT_STRING)
         \<and> ((\<forall>v\<in>set vs. v = []) \<longrightarrow> infer_type env vs = DT_INT32)"
  using assms by (auto simp: infer_type_def infer_loop_eq)

theorem infer_type_rule_witness:
  "parses_int sample_env (lit ''1'') \<and> parses_float sample_env (lit ''1'')
   \<and> \<not> parses_int sample_env (lit ''1.5'') \<and> parses_float sample_env (lit ''1.5'')
   \<and> infer_type sample_env [lit ''1'', lit '''', lit ''1.5''] = DT_FLOAT64"
proof -
  have 1: "\<forall>v\<in>set [lit ''1'', lit '''', lit ''1.5''].
             parses_int sample_env v \<longrightarrow> parses_float sample_env v"
    by (simp add: py_int_eval sample_env_def sample_float_def)
  have 2: "\<not> parses_int sample_env (lit ''1.5'')" "parses_int sample_env (lit ''1'')"
    by (simp_all add: py_int_eval sample_env_def)
  have 3: "parses_float sample_env (lit ''1'')" "parses_float sample_env (lit ''1.5'')"
    by (simp_all add: parses_float_def lit_def sample_env_def sample_float_def)
  have 4: "lit ''1.5'' \<noteq> []" "lit ''1'' \<noteq> []" "lit '''' = []"
    by (simp_all add: lit_def)
  show ?thesis
    using infer_type_rule [OF 1] 1 2 3 4 by simp
qed

text \<open>
  C7, as the specification states it: a column of integers of which one lies outside
  the signed 32-bit range is inferred \<^verbatim>\<open>FLOAT64\<close>. The code has no range check: the
  column \<^verbatim>\<open>["2147483648"]\<close> is inferred \<^verbatim>\<open>INT32\<close>.
\<close>

theorem infer_type_out_of_range_counterexample:
  "py_int sample_env (lit ''2147483648'') = Inr 2147483648
   \<and> \<not> (2147483648 \<le> (2 ^ 31 - 1 :: int))
   \<and> infer_type sample_env [lit ''2147483648''] = DT_INT32
   \<and> infer_type sample_env [lit ''2147483648''] \<noteq> DT_FLOAT64"
  by (simp add: infer_type_def py_int_eval sample_env_def DT_INT32_def DT_FLOAT64_def)

text \<open>
  C7, amended: a column in which every non-empty value parses as an integer is
  inferred \<^verbatim>\<open>INT32\<close>, not \<^verbatim>\<open>FLOAT64\<close>, also when one of the integers lies outside the
  signed 32-bit range.
\<close>

theorem infer_type_out_of_range:
  assumes "\<forall>v\<in>set vs. v \<noteq> [] \<longrightarrow> parses_int env v"
    and "\<exists>v\<in>set vs. \<exists>n. py_int env v = Inr n \<and> (n < - (2 ^ 31) \<or> 2 ^ 31 - 1 < n)"
  shows "infer_type env vs = DT_INT32 \<and> infer_type env vs \<noteq> DT_FLOAT64"
  using assms(1) by (simp add: infer_type_def infer_loop_eq DT_INT32_def DT_FLOAT64_def)

theorem infer_type_out_of_range_witness:
  "infer_type sample_env [lit ''7'', lit ''-2147483649''] = DT_INT32
   \<and> py_int sample_env (lit ''-2147483649'') = Inr (- 2147483649)"
proof -
  have p: "py_int sample_env (lit ''-2147483649'') = Inr (- 2147483649)"
          "py_int sample_env (lit ''7'') = Inr 7"
    by (simp_all add: py_int_eval sample_env_def)
  have 1: "\<forall>v\<in>set [lit ''7'', lit ''-2147483649'']. v \<noteq> [] \<longrightarrow> parses_int sample_env v"
    using p by (simp add: parses_int_def)
  have 2: "\<exists>v\<in>set [lit ''7'', lit ''-2147483649''].
             \<exists>n. py_int sample_env v = Inr n \<and> (n < - (2 ^ 31) \<or> 2 ^ 31 - 1 < n)"
    using p by simp
  show ?thesis
    using infer_type_out_of_range [OF 1 2] p by simp
qed

subsection \<open>Evaluating the model on concrete inputs\<close>

text \<open>
  The loops that count down a number are unfolded on a numeral by these equations;
  they are for concrete inputs only.
\<close>

lemma le_bytes_unfold:
  "le_bytes k x = (if k = 0 then [] else of_nat (x mod 256) # le_bytes (k - 1) (x div 256))"
  by (cases k) simp_all

lemma read_metas_unfold:
  "read_metas hb n p =
     (if n = 0 then Inr []
      else ebind (unpack_from 2 hb p)
       (\<lambda>name_len.
          ebind (utf8_decode (slice hb (p + 2) (p + 2 + name_len)))
            (\<lambda>nm.
               ebind (unpack_from 1 hb (p + 2 + name_len))
                 (\<lambda>dt.
                    ebind (unpack_from 8 hb (p + 2 + name_len + 1))
                      (\<lambda>off.
                         ebind (unpack_from 8 hb (p + 2 + name_len + 1 + 8))
                           (\<lambda>comp_size.
                              ebind (unpack_from 8 hb (p + 2 + name_len + 1 + 8 + 8))
                                (\<lambda>uncomp_size.
                                   ebind (read_metas hb (n - 1)
                                            (p + 2 + name_len + 1 + 8 + 8 + 8))
                                     (\<lambda>metas.
                                        Inr (\<lparr>name = nm, dtype = int dt, offset = off,
                                               compressed_size = comp_size,
                                               uncompressed_size = uncomp_size\<rparr>
                                             # metas)))))))))"
  by (cases n) simp_all

lemma read_int32s_unfold:
  "read_int32s bm i n buf =
     (if n = 0 then Inr []
      else (case f_read buf 4 of
        (d, buf') \<Rightarrow>
          ebind (unpack_i32 d)
            (\<lambda>v. ebind (is_null bm i)
                   (\<lambda>nl. ebind (read_int32s bm (i + 1) (n - 1) buf')
                          (\<lambda>values. Inr ((if nl then None else Some (py_str v)) # values))))))"
  by (cases n) simp_all

lemmas codec_eval = ebind_def pack_uint_def pack_u8_def pack_u16_def pack_u32_def pack_u64_def
  pack_i32_def pack_f64_def unpack_uint_def unpack_i32_def unpack_f64_def unpack_from_def
  f_read_def slice_def utf8_char_def cont_def MAGIC_def VERSION_def
  DT_INT32_def DT_FLOAT64_def DT_STRING_def le_bytes_unfold

lemmas reader_eval = read_header_def read_column_def decode_column_def is_null_def py_str_def
  nat_digits.simps read_metas_unfold read_int32s_unfold

lemmas sample_eval = sample_env_def sample_compress_def sample_decompress_def
  sample_float_def sample_repr_def

subsection \<open>The version byte\<close>

text \<open>
  C5, as the specification states it: the construction of a reader fails on a file
  whose magic is right and whose version byte is not 1, and no read succeeds on it.
  The code reads the version and compares it with nothing: on \<open>version2_file\<close>, whose
  version byte is 2, the construction succeeds and \<^verbatim>\<open>read_column("age")\<close> returns the
  column.
\<close>

theorem reader_accepts_version_2_counterexample:
  "take 7 version2_file = MAGIC \<and> version2_file ! 7 = 2
   \<and> read_header version2_file =
       Inr \<lparr>path = version2_file, num_rows = 4, num_cols = 1,
            columns_meta = [\<lparr>name = lit ''age'', dtype = DT_INT32, offset = 52,
                             compressed_size = 22, uncompressed_size = 21\<rparr>]\<rparr>
   \<and> read_column sample_env
         \<lparr>path = version2_file, num_rows = 4, num_cols = 1,
          columns_meta = [\<lparr>name = lit ''age'', dtype = DT_INT32, offset = 52,
                           compressed_size = 22, uncompressed_size = 21\<rparr>]\<rparr>
         (lit ''age'')
       = Inr [Some (lit ''30''), None, Some (lit ''42''), Some (lit ''7'')]"
  by (simp add: version2_file_def codec_eval reader_eval sample_eval lit_def)

text \<open>
  C5, amended: the construction of a reader does not depend on the version byte. On
  a file whose magic is right it succeeds or fails as it does on the same file with
  version byte 1, with the same error or with the same row count, column count and
  column metadata.
\<close>

theorem read_header_ignores_version:
  "read_header (MAGIC @ b # rest) =
     map_sum id (\<lambda>rd. rd\<lparr>path := MAGIC @ b # rest\<rparr>) (read_header (MAGIC @ 1 # rest))"
  by (simp add: read_header_def f_read_def unpack_uint_def ebind_def MAGIC_def
           split: sum.splits)

subsection \<open>Offsets of a string column\<close>

lemma read_offsets_unfold:
  "read_offsets n buf =
     (if n = 0 then Inr ([], buf)
      else (case f_read buf 4 of
        (d, buf') \<Rightarrow>
          ebind (unpack_uint 4 d)
            (\<lambda>off. ebind (read_offsets (n - 1) buf')
                     (\<lambda>(offsets, rest). Inr (off # offsets, rest)))))"
  by (cases n) simp_all

lemma read_strings_unfold:
  "read_strings bm offsets concat_buf i n =
     (if n = 0 then Inr []
      else ebind (is_null bm i)
       (\<lambda>nl. ebind (if nl then Inr None
                     else if Suc i < length offsets
                     then ebind (utf8_decode (slice concat_buf (offsets ! i) (offsets ! Suc i)))
                            (\<lambda>s. Inr (Some s))
                     else Inl IndexError)
                (\<lambda>x. ebind (read_strings bm offsets concat_buf (i + 1) (n - 1))
                       (\<lambda>values. Inr (x # values)))))"
  by (cases n) simp_all



lemma is_null_eq: "i < 8 * length bm \<Longrightarrow> is_null bm i = Inr (null_bit bm i)"
  by (simp add: is_null_def null_bit_def less_mult_imp_div_less mult.commute)

lemma read_strings_eq:
  assumes "i + n \<le> 8 * length bm" and "i + n < length offsets"
    and "\<forall>j. i \<le> j \<and> j < i + n \<and> \<not> null_bit bm j \<longrightarrow>
           \<not> isl (utf8_decode (slice payload (offsets ! j) (offsets ! Suc j)))"
  shows "read_strings bm offsets payload i n =
           Inr (map (\<lambda>j. if null_bit bm j then None
                          else Some (projr (utf8_decode (slice payload (offsets ! j) (offsets ! Suc j)))))
                  [i..<i + n])"
  using assms
proof (induction n arbitrary: i)
  case 0
  then show ?case by simp
next
  case (Suc n)
  have nl: "is_null bm i = Inr (null_bit bm i)"
    using Suc.prems(1) by (intro is_null_eq) simp
  have rest: "read_strings bm offsets payload (Suc i) n =
           Inr (map (\<lambda>j. if null_bit bm j then None
                          else Some (projr (utf8_decode (slice payload (offsets ! j) (offsets ! Suc j)))))
                  [Suc i..<Suc i + n])"
    using Suc.prems by (intro Suc.IH) auto
  have dec: "\<not> null_bit bm i \<Longrightarrow>
      \<not> isl (utf8_decode (slice payload (offsets ! i) (offsets ! Suc i)))"
    using Suc.prems(3) by simp
  have idx: "Suc i < length offsets" using Suc.prems(2) by simp
  have up: "[i..<Suc (i + n)] = i # [Suc i..<Suc (i + n)]"
    by (simp add: upt_conv_Cons)
  show ?case
    using dec by (cases "utf8_decode (slice payload (offsets ! i) (offsets ! Suc i))")
       (auto simp: nl rest idx up ebind_def simp del: upt_Suc)
qed



subsection \<open>Packing and unpacking\<close>

lemma length_le_bytes [simp]: "length (le_bytes k x) = k"
  by (induction k arbitrary: x) simp_all

lemma le_nat_le_bytes: "x < 256 ^ k \<Longrightarrow> le_nat (le_bytes k x) = x"
proof (induction k arbitrary: x)
  case 0
  then show ?case by simp
next
  case (Suc k)
  have "x div 256 < 256 ^ k"
    using Suc.prems by (simp add: less_mult_imp_div_less mult.commute)
  then have "le_nat (le_bytes k (x div 256)) = x div 256"
    by (rule Suc.IH)
  moreover have "unat (of_nat (x mod 256) :: byte) = x mod 256"
    by (simp add: unat_of_nat)
  ultimately show ?case by simp
qed

lemma le_nat_bound: "le_nat bs < 256 ^ length bs"
proof (induction bs)
  case Nil
  then show ?case by simp
next
  case (Cons b bs)
  have "unat b < 256" using unsigned_less [of b] by simp
  with Cons show ?case by simp
qed

lemma pack_uint_Inr:
  "pack_uint k (int x) = Inr bs \<longleftrightarrow> x < 256 ^ k \<and> bs = le_bytes k x"
  by (auto simp: pack_uint_def)

lemma unpack_from_at:
  "length b = k \<Longrightarrow> unpack_from k (pre @ b @ post) (length pre) = Inr (le_nat b)"
  by (simp add: unpack_from_def)

lemma unpack_uint_le_bytes: "x < 256 ^ k \<Longrightarrow> unpack_uint k (le_bytes k x) = Inr x"
  by (simp add: unpack_uint_def le_nat_le_bytes)

lemma pack_i32_Inr:
  "pack_i32 x = Inr bs \<longleftrightarrow> - (2 ^ 31) \<le> x \<and> x < 2 ^ 31 \<and> bs = le_bytes 4 (nat (x mod 2 ^ 32))"
  by (auto simp: pack_i32_def)

lemma unpack_i32_pack:
  assumes "- (2 ^ 31) \<le> x" and "x < 2 ^ 31"
  shows "unpack_i32 (le_bytes 4 (nat (x mod 2 ^ 32))) = Inr x"
proof -
  have b: "nat (x mod 2 ^ 32) < 256 ^ 4"
    by (simp add: nat_less_iff)
  have v: "le_nat (le_bytes 4 (nat (x mod 2 ^ 32))) = nat (x mod 2 ^ 32)"
    using b by (rule le_nat_le_bytes)
  show ?thesis
  proof (cases "0 \<le> x")
    case True
    then have m: "x mod 4294967296 = x" using assms by simp
    show ?thesis
      unfolding unpack_i32_def v using True assms by (simp add: m)
  next
    case False
    then have m: "x mod 4294967296 = x + 4294967296"
      using assms by (simp add: int_mod_pos_eq [where q = "-1"])
    show ?thesis
      unfolding unpack_i32_def v using False assms by (simp add: m)
  qed
qed

lemma unpack_f64_pack: "unpack_f64 (pack_f64 w) = Inr w"
proof -
  have "unat w < 256 ^ 8" using unsigned_less [of w] by simp
  then show ?thesis
    by (simp add: unpack_f64_def pack_f64_def le_nat_le_bytes)
qed

subsection \<open>UTF-8: decoding what was encoded\<close>

lemma unat_byte: "n < 256 \<Longrightarrow> unat (of_nat n :: byte) = n"
  by (simp add: unat_of_nat)

lemma radix64: "(k::nat) * (d mod 64) + k * 64 * (d div 64) = k * d"
proof -
  have "k * d = k * (64 * (d div 64) + d mod 64)" by simp
  also have "\<dots> = k * (d mod 64) + k * 64 * (d div 64)"
    by (simp only: distrib_left mult.assoc add.commute)
  finally show ?thesis by simp
qed

lemma split3: "(c::nat) div 4096 * 4096 + c div 64 mod 64 * 64 + c mod 64 = c"
proof -
  have 1: "c div 4096 = c div 64 div 64" by (simp add: div_mult2_eq)
  have "64 * (c div 64 mod 64) + 64 * 64 * (c div 64 div 64) = 64 * (c div 64)"
    by (rule radix64)
  then have "c div 4096 * 4096 + c div 64 mod 64 * 64 = c div 64 * 64"
    unfolding 1 by (simp add: mult.commute)
  then show ?thesis by simp
qed

lemma split4: "(c::nat) div 262144 * 262144 + c div 4096 mod 64 * 4096 + c div 64 mod 64 * 64
             + c mod 64 = c"
proof -
  have 1: "c div 262144 = c div 4096 div 64" by (simp add: div_mult2_eq)
  have "4096 * (c div 4096 mod 64) + 4096 * 64 * (c div 4096 div 64) = 4096 * (c div 4096)"
    by (rule radix64)
  then have "c div 262144 * 262144 + c div 4096 mod 64 * 4096 = c div 4096 * 4096"
    unfolding 1 by (simp add: mult.commute)
  then show ?thesis using split3 [of c] by simp
qed

lemma utf8_char_decode:
  assumes "utf8_char c = Inr b"
  shows "utf8_decode (b @ rest) = ebind (utf8_decode rest) (\<lambda>cs. Inr (c # cs))"
proof -
  consider (one) "c < 0x80"
    | (two) "0x80 \<le> c" "c < 0x800"
    | (three) "0x800 \<le> c" "c < 0x10000" "\<not> (0xD800 \<le> c \<and> c < 0xE000)"
    | (four) "0x10000 \<le> c" "c < 0x110000"
    using assms by (auto simp: utf8_char_def split: if_splits)
  then show ?thesis
  proof cases
    case one
    define x0 :: byte where "x0 = of_nat c"
    have b: "b = [x0]"
      using assms one by (auto simp: utf8_char_def x0_def)
    have a0: "unat x0 = c"
      unfolding x0_def using one by (intro unat_byte) simp
    show ?thesis
      unfolding b using one by (simp add: a0)
  next
    case two
    define x0 :: byte where "x0 = of_nat (0xC0 + c div 64)"
    define x1 :: byte where "x1 = of_nat (0x80 + c mod 64)"
    have b: "b = [x0, x1]"
      using assms two by (auto simp: utf8_char_def x0_def x1_def)
    have a0: "unat x0 = 0xC0 + c div 64"
      unfolding x0_def using two by (intro unat_byte) simp
    have a1: "unat x1 = 0x80 + c mod 64"
      unfolding x1_def by (intro unat_byte) simp
    have r: "2 \<le> c div 64" "c div 64 < 32"
      using two by simp_all
    have v: "c div 64 * 64 + c mod 64 = c" by simp
    show ?thesis
      unfolding b using r v by (simp add: a0 a1 cont_def)
  next
    case three
    define x0 :: byte where "x0 = of_nat (0xE0 + c div 4096)"
    define x1 :: byte where "x1 = of_nat (0x80 + c div 64 mod 64)"
    define x2 :: byte where "x2 = of_nat (0x80 + c mod 64)"
    have b: "b = [x0, x1, x2]"
      using assms three by (auto simp: utf8_char_def x0_def x1_def x2_def)
    have a0: "unat x0 = 0xE0 + c div 4096"
      unfolding x0_def using three by (intro unat_byte) simp
    have a1: "unat x1 = 0x80 + c div 64 mod 64"
      unfolding x1_def by (intro unat_byte) simp
    have a2: "unat x2 = 0x80 + c mod 64"
      unfolding x2_def by (intro unat_byte) simp
    have r: "c div 4096 < 16"
      using three by simp
    have v: "c div 4096 * 4096 + c div 64 mod 64 * 64 + c mod 64 = c"
      by (rule split3)
    show ?thesis
      unfolding b using r three by (simp add: a0 a1 a2 cont_def v)
  next
    case four
    define x0 :: byte where "x0 = of_nat (0xF0 + c div 262144)"
    define x1 :: byte where "x1 = of_nat (0x80 + c div 4096 mod 64)"
    define x2 :: byte where "x2 = of_nat (0x80 + c div 64 mod 64)"
    define x3 :: byte where "x3 = of_nat (0x80 + c mod 64)"
    have b: "b = [x0, x1, x2, x3]"
      using assms four by (auto simp: utf8_char_def x0_def x1_def x2_def x3_def)
    have a0: "unat x0 = 0xF0 + c div 262144"
      unfolding x0_def using four by (intro unat_byte) simp
    have a1: "unat x1 = 0x80 + c div 4096 mod 64"
      unfolding x1_def by (intro unat_byte) simp
    have a2: "unat x2 = 0x80 + c div 64 mod 64"
      unfolding x2_def by (intro unat_byte) simp
    have a3: "unat x3 = 0x80 + c mod 64"
      unfolding x3_def by (intro unat_byte) simp
    have r: "c div 262144 < 5"
      using four by simp
    have v: "c div 262144 * 262144 + c div 4096 mod 64 * 4096 + c div 64 mod 64 * 64
             + c mod 64 = c"
      by (rule split4)
    show ?thesis
      unfolding b using r four by (simp add: a0 a1 a2 a3 cont_def v)
  qed
qed

lemma utf8_decode_encode:
  "utf8_encode cs = Inr bs \<Longrightarrow> utf8_decode bs = Inr cs"
proof (induction cs arbitrary: bs)
  case Nil
  then show ?case by simp
next
  case (Cons c cs)
  from Cons.prems obtain b bs' where
    b: "utf8_char c = Inr b" and bs': "utf8_encode cs = Inr bs'" and bs: "bs = b @ bs'"
    by (auto simp: ebind_def split: sum.splits)
  show ?case
    unfolding bs by (simp add: utf8_char_decode [OF b] Cons.IH [OF bs'] ebind_def)
qed

subsection \<open>\<^verbatim>\<open>int\<close> reads what \<^verbatim>\<open>str\<close> writes\<close>

lemma nat_digits_digit: "c \<in> set (nat_digits n) \<Longrightarrow> is_digit c"
proof (induction n rule: nat_digits.induct)
  case (1 n)
  show ?case
  proof (cases "n < 10")
    case True
    with "1.prems" show ?thesis
      by (subst (asm) nat_digits.simps) (simp add: is_digit_def)
  next
    case False
    with "1.prems" have "c \<in> set (nat_digits (n div 10)) \<or> c = 48 + n mod 10"
      by (subst (asm) nat_digits.simps) auto
    then show ?thesis
    proof
      assume "c \<in> set (nat_digits (n div 10))"
      then show ?thesis using False by (rule "1.IH" [rotated])
    next
      assume "c = 48 + n mod 10"
      then show ?thesis by (simp add: is_digit_def)
    qed
  qed
qed

lemma nat_digits_nonempty: "nat_digits n \<noteq> []"
  by (subst nat_digits.simps) simp

lemma digits_value_snoc: "digits_value (ds @ [d]) = 10 * digits_value ds + (d - 48)"
  by (simp add: digits_value_def)

lemma digits_value_nat_digits: "digits_value (nat_digits n) = n"
proof (induction n rule: nat_digits.induct)
  case (1 n)
  show ?case
  proof (cases "n < 10")
    case True
    then show ?thesis by (subst nat_digits.simps) (simp add: digits_value_def)
  next
    case False
    then have "digits_value (nat_digits (n div 10)) = n div 10"
      by (rule "1.IH")
    with False show ?thesis
      by (subst nat_digits.simps) (simp add: digits_value_snoc)
  qed
qed

lemma length_nat_digits: "n < 10 ^ k \<Longrightarrow> 0 < k \<Longrightarrow> length (nat_digits n) \<le> k"
proof (induction n arbitrary: k rule: nat_digits.induct)
  case (1 n)
  show ?case
  proof (cases "n < 10")
    case True
    with "1.prems" show ?thesis by (subst nat_digits.simps) simp
  next
    case False
    obtain k' where k: "k = Suc k'" using "1.prems"(2) by (cases k) auto
    have "k' \<noteq> 0" using False "1.prems"(1) k by (cases k') auto
    moreover have "n div 10 < 10 ^ k'"
      using "1.prems"(1) k by (simp add: less_mult_imp_div_less mult.commute)
    ultimately have "length (nat_digits (n div 10)) \<le> k'"
      using False by (intro "1.IH") auto
    with False k show ?thesis by (subst nat_digits.simps) simp
  qed
qed

lemma no_double_underscore: "95 \<notin> set xs \<Longrightarrow> \<not> double_underscore xs"
  by (induction xs rule: double_underscore.induct) auto

lemma long_from_string_digits:
  assumes dig: "\<forall>c\<in>set ds. is_digit c" and ne: "ds \<noteq> []"
    and lim: "length ds \<le> 640 \<or> lim = 0 \<or> length ds \<le> lim"
  shows "long_from_string lim ds = Some (int (digits_value ds))"
    and "long_from_string lim (45 # ds) = Some (- int (digits_value ds))"
proof -
  have hd: "is_digit (hd ds)" using dig ne by (cases ds) auto
  have nsp: "\<not> is_space (hd ds)" "hd ds \<noteq> 43" "hd ds \<noteq> 45" "hd ds \<noteq> 95"
    using hd by (auto simp: is_digit_def is_space_def)
  have dw: "dropWhile is_space ds = ds"
    using ne nsp(1) by (cases ds) auto
  have tw: "takeWhile (\<lambda>c. is_digit c \<or> c = 95) ds = ds"
    using dig by (simp add: takeWhile_eq_all_conv)
  have dr: "dropWhile (\<lambda>c. is_digit c \<or> c = 95) ds = []"
    using dig by simp
  have fl: "filter is_digit ds = ds"
    using dig by (simp add: filter_id_conv)
  have "is_digit (last ds)" using dig ne by simp
  then have la: "last ds \<noteq> 95" by (auto simp: is_digit_def)
  have "95 \<notin> set ds" using dig by (auto simp: is_digit_def)
  then have du: "\<not> double_underscore ds" by (rule no_double_underscore)
  have l: "\<not> (640 < length ds \<and> 0 < lim \<and> lim < length ds)"
    using lim by auto
  show "long_from_string lim ds = Some (int (digits_value ds))"
    using ne nsp la du l by (simp add: long_from_string_def Let_def dw tw dr fl)
  have sp: "\<not> is_space 45"
    by (simp add: is_space_def)
  show "long_from_string lim (45 # ds) = Some (- int (digits_value ds))"
    using ne nsp la du l by (simp add: long_from_string_def Let_def sp tw dr fl)
qed

lemma to_ascii_py_str: "map (to_ascii env) (py_str n) = py_str n"
proof -
  have "\<forall>c\<in>set (py_str n). c < 127"
    by (auto simp: py_str_def is_digit_def dest!: nat_digits_digit)
  then show ?thesis
    by (simp add: to_ascii_def map_idI)
qed

lemma py_int_py_str:
  assumes "- (10 ^ 10) < n" and "n < 10 ^ 10"
  shows "py_int env (py_str n) = Inr n"
proof -
  let ?m = "nat \<bar>n\<bar>"
  have "?m < 10 ^ 10" using assms by (simp add: nat_less_iff abs_less_iff)
  then have "length (nat_digits ?m) \<le> 10"
    by (rule length_nat_digits) simp
  then have len: "length (nat_digits ?m) \<le> 640"
    by simp
  have dig: "\<forall>c\<in>set (nat_digits ?m). is_digit c"
    by (auto dest: nat_digits_digit)
  note l = long_from_string_digits [OF dig nat_digits_nonempty disjI1 [OF len],
             unfolded digits_value_nat_digits]
  have p: "py_int env (py_str n) =
      (case long_from_string (int_max_str_digits env) (py_str n) of
         None \<Rightarrow> Inl ValueError | Some k \<Rightarrow> Inr k)"
    by (simp add: py_int_def to_ascii_py_str)
  show ?thesis
  proof (cases "n < 0")
    case True
    then show ?thesis
      unfolding p using l(2) [of "int_max_str_digits env"] by (simp add: py_str_def)
  next
    case False
    then show ?thesis
      unfolding p using l(1) [of "int_max_str_digits env"] by (simp add: py_str_def)
  qed
qed

subsection \<open>The null bitmap\<close>

lemma null_bit_iff: "null_bit bm j = bit (bm ! (j div 8)) (j mod 8)"
  by (simp add: null_bit_def bit_iff_and_drop_bit_eq_1)

lemma div_mod_8_eq: "(j div 8 = i div 8 \<and> j mod 8 = i mod 8) = (j = (i::nat))"
  by (metis div_mult_mod_eq)

lemma null_bit_update:
  assumes "i div 8 < length bm"
  shows "null_bit (bm[i div 8 := bm ! (i div 8) OR push_bit (i mod 8) 1]) j =
           (null_bit bm j \<or> j = i)"
proof (cases "j div 8 = i div 8")
  case True
  have "bit (bm ! (i div 8) OR push_bit (i mod 8) (1 :: byte)) (j mod 8) =
          (bit (bm ! (i div 8)) (j mod 8) \<or> j mod 8 = i mod 8)"
    by (auto simp: bit_simps)
  with True assms show ?thesis
    using div_mod_8_eq [of j i] by (auto simp: null_bit_iff)
next
  case False
  then have "j \<noteq> i" by auto
  with False show ?thesis by (simp add: null_bit_iff)
qed

lemma mark_nulls_ok:
  assumes "i + length vs \<le> 8 * length bm"
  shows "\<exists>bm'. mark_nulls i vs bm = Inr bm' \<and> length bm' = length bm \<and>
           (\<forall>j. null_bit bm' j =
                  (null_bit bm j \<or> (i \<le> j \<and> j < i + length vs \<and> vs ! (j - i) = [])))"
  using assms
proof (induction vs arbitrary: i bm)
  case Nil
  then show ?case by auto
next
  case (Cons v vs)
  have idx: "i div 8 < length bm"
    using Cons.prems by (simp add: less_mult_imp_div_less mult.commute)
  define bm2 where
    "bm2 = (if v = [] then bm[i div 8 := bm ! (i div 8) OR push_bit (i mod 8) 1] else bm)"
  have len: "length bm2 = length bm" by (simp add: bm2_def)
  have nb: "null_bit bm2 j = (null_bit bm j \<or> (v = [] \<and> j = i))" for j
    unfolding bm2_def using null_bit_update [OF idx, of j] by (cases "v = []") simp_all
  have step: "mark_nulls i (v # vs) bm = mark_nulls (Suc i) vs bm2"
    unfolding bm2_def using idx by (cases "v = []") simp_all
  have "Suc i + length vs \<le> 8 * length bm2"
    using Cons.prems by (simp add: len)
  from Cons.IH [OF this] obtain bm' where
    m: "mark_nulls (Suc i) vs bm2 = Inr bm'" and l: "length bm' = length bm"
    and b: "\<And>j. null_bit bm' j =
                  (null_bit bm2 j \<or> (Suc i \<le> j \<and> j < Suc i + length vs \<and> vs ! (j - Suc i) = []))"
    by (auto simp: len)
  have m': "mark_nulls i (v # vs) bm = Inr bm'"
    using m step by simp
  have "null_bit bm' j =
          (null_bit bm j \<or> (i \<le> j \<and> j < i + length (v # vs) \<and> (v # vs) ! (j - i) = []))" for j
  proof (cases "j = i")
    case True
    then show ?thesis
      by (auto simp: b nb)
  next
    case False
    then have "(v # vs) ! (j - i) = vs ! (j - Suc i)" if "i \<le> j"
    proof -
      from that False obtain k where k: "j - i = Suc k" by (cases "j - i") auto
      then have "j - Suc i = k" by simp
      with k show ?thesis by simp
    qed
    with False show ?thesis
      by (auto simp: b nb)
  qed
  with m' l show ?case by blast
qed

lemma null_bit_zero: "j div 8 < n \<Longrightarrow> \<not> null_bit (replicate n 0) j"
  by (simp add: null_bit_iff)

lemma build_null_bitmap_ok:
  assumes "length vs = n"
  shows "\<exists>bm. build_null_bitmap n vs = Inr bm \<and> length bm = (n + 7) div 8 \<and>
           (\<forall>j<n. null_bit bm j = (vs ! j = []))"
proof -
  have "0 + length vs \<le> 8 * length (replicate ((n + 7) div 8) (0 :: byte))"
    using assms by simp
  from mark_nulls_ok [OF this] obtain bm where
    m: "mark_nulls 0 vs (replicate ((n + 7) div 8) 0) = Inr bm"
    and l: "length bm = (n + 7) div 8"
    and b: "\<And>j. null_bit bm j =
             (null_bit (replicate ((n + 7) div 8) 0) j \<or> (j < length vs \<and> vs ! j = []))"
    by auto
  have "null_bit bm j = (vs ! j = [])" if "j < n" for j
  proof -
    have "j div 8 < (n + 7) div 8" using that by simp
    then show ?thesis using that assms by (simp add: b null_bit_zero)
  qed
  with m l show ?thesis by (simp add: build_null_bitmap_def)
qed

subsection \<open>Decoding the payload that was encoded\<close>

lemma ebind_Inr: "ebind m f = Inr y \<longleftrightarrow> (\<exists>x. m = Inr x \<and> f x = Inr y)"
  by (cases m) (simp_all add: ebind_def)

lemma f_read_append: "length b = n \<Longrightarrow> f_read (b @ rest) n = (b, rest)"
  by (simp add: f_read_def)

lemma read_int32s_payload:
  assumes "int32_payload env vs = Inr p"
    and "\<forall>k<length vs. is_null bm (i + k) = Inr (vs ! k = [])"
  shows "read_int32s bm i (length vs) (p @ rest) = Inr (map (rendered env DT_INT32) vs)"
  using assms
proof (induction vs arbitrary: i p)
  case Nil
  then show ?case by simp
next
  case (Cons v vs)
  from Cons.prems(1) obtain b p' where
    b: "(if v = [] then pack_i32 0 else ebind (py_int env v) pack_i32) = Inr b"
    and p': "int32_payload env vs = Inr p'" and p: "p = b @ p'"
    by (auto simp: ebind_Inr)
  have nl: "is_null bm i = Inr (v = [])"
    using Cons.prems(2) [rule_format, of 0] by simp
  have "\<forall>k<length vs. is_null bm (Suc i + k) = Inr (vs ! k = [])"
    using Cons.prems(2) by (auto dest: spec [where x = "Suc k" for k])
  from Cons.IH [OF p' this]
  have rest: "read_int32s bm (Suc i) (length vs) (p' @ rest) = Inr (map (rendered env DT_INT32) vs)" .
  obtain n where n: "pack_i32 n = Inr b"
    and r: "(if v = [] then None else Some (py_str n)) = rendered env DT_INT32 v"
    using b by (cases "v = []") (auto simp: ebind_Inr rendered_def)
  from n have lo: "- (2 ^ 31) \<le> n" and hi: "n < 2 ^ 31"
    and bb: "b = le_bytes 4 (nat (n mod 2 ^ 32))"
    unfolding pack_i32_Inr by blast+
  have len: "length b = 4" unfolding bb by simp
  have u: "unpack_i32 b = Inr n"
    unfolding bb using lo hi by (rule unpack_i32_pack)
  show ?case
    using r by (simp add: p f_read_append [OF len] u nl rest ebind_def)
qed

lemma read_float64s_payload:
  assumes "float64_payload env vs = Inr p"
    and "\<forall>k<length vs. is_null bm (i + k) = Inr (vs ! k = [])"
  shows "read_float64s env bm i (length vs) (p @ rest) = Inr (map (rendered env DT_FLOAT64) vs)"
  using assms
proof (induction vs arbitrary: i p)
  case Nil
  then show ?case by simp
next
  case (Cons v vs)
  from Cons.prems(1) obtain b p' where
    b: "(if v = [] then Inr (pack_f64 0)
         else (case float_of_str env v of None \<Rightarrow> Inl ValueError
               | Some w \<Rightarrow> Inr (pack_f64 w))) = Inr b"
    and p': "float64_payload env vs = Inr p'" and p: "p = b @ p'"
    by (auto simp: ebind_Inr)
  have nl: "is_null bm i = Inr (v = [])"
    using Cons.prems(2) [rule_format, of 0] by simp
  have "\<forall>k<length vs. is_null bm (Suc i + k) = Inr (vs ! k = [])"
    using Cons.prems(2) by (auto dest: spec [where x = "Suc k" for k])
  from Cons.IH [OF p' this]
  have rest: "read_float64s env bm (Suc i) (length vs) (p' @ rest) =
                Inr (map (rendered env DT_FLOAT64) vs)" .
  obtain w where w: "b = pack_f64 w"
    and r: "(if v = [] then None else Some (float_repr env w)) = rendered env DT_FLOAT64 v"
    using b by (cases "v = []")
      (auto simp: rendered_def DT_INT32_def DT_FLOAT64_def split: option.splits)
  have len: "length b = 8" and u: "unpack_f64 b = Inr w"
    by (simp_all add: w unpack_f64_pack) (simp add: pack_f64_def)
  show ?case
    using r by (simp add: p f_read_append [OF len] u nl rest ebind_def)
qed

lemma string_offsets_spec:
  assumes "string_offsets vs offs sb = Inr (offs', sb')"
    and "offs \<noteq> []" and "last offs = length sb"
  shows "length offs' = length offs + length vs
       \<and> take (length offs) offs' = offs
       \<and> take (length sb) sb' = sb
       \<and> (\<forall>k<length vs. vs ! k \<noteq> [] \<longrightarrow>
             utf8_encode (vs ! k) =
               Inr (slice sb' (offs' ! (length offs + k - 1)) (offs' ! (length offs + k))))"
  using assms
proof (induction vs arbitrary: offs sb)
  case Nil
  then show ?case by simp
next
  case (Cons v vs)
  obtain b where b: "if v = [] then b = [] else utf8_encode v = Inr b"
    using Cons.prems(1) by (cases "v = []") (auto simp: ebind_Inr)
  define o' where "o' = last offs + length b"
  have step: "string_offsets vs (offs @ [o']) (sb @ b) = Inr (offs', sb')"
    using Cons.prems(1) b by (cases "v = []") (auto simp: ebind_Inr o'_def)
  have "offs @ [o'] \<noteq> []" "last (offs @ [o']) = length (sb @ b)"
    using Cons.prems(3) by (simp_all add: o'_def)
  from Cons.IH [OF step this]
  have len: "length offs' = length (offs @ [o']) + length vs"
    and tk: "take (length (offs @ [o'])) offs' = offs @ [o']"
    and tb: "take (length (sb @ b)) sb' = sb @ b"
    and sl: "\<And>k. k < length vs \<Longrightarrow> vs ! k \<noteq> [] \<Longrightarrow>
             utf8_encode (vs ! k) =
               Inr (slice sb' (offs' ! (length (offs @ [o']) + k - 1))
                              (offs' ! (length (offs @ [o']) + k)))"
    by blast+
  have n1: "offs' ! i = (offs @ [o']) ! i" if "i < length offs + 1" for i
    using that tk by (metis length_append_singleton nth_take Suc_eq_plus1)
  have o0: "offs' ! (length offs - 1) = length sb"
    using n1 [of "length offs - 1"] Cons.prems(2,3)
    by (simp add: nth_append last_conv_nth)
  have o1: "offs' ! length offs = length sb + length b"
    using n1 [of "length offs"] Cons.prems(3) by (simp add: o'_def)
  have t1: "take (length offs) offs' = offs"
    using tk by (metis append_eq_conv_conj length_append_singleton take_Suc_conv_app_nth
          butlast_snoc butlast_take diff_Suc_1 length_take lessI less_or_eq_imp_le min.absorb2 len
          le_add1)
  have t2: "take (length sb) sb' = sb"
  proof -
    have "take (length sb) sb' = take (length sb) (take (length (sb @ b)) sb')"
      by (simp add: min_def)
    also have "\<dots> = take (length sb) (sb @ b)"
      by (simp only: tb)
    finally show ?thesis by simp
  qed
  have hd: "slice sb' (length sb) (length sb + length b) = b"
  proof -
    have "slice sb' (length sb) (length sb + length b) =
            drop (length sb) (take (length (sb @ b)) sb')"
      by (simp add: slice_def drop_take)
    also have "\<dots> = drop (length sb) (sb @ b)"
      by (simp only: tb)
    finally show ?thesis by simp
  qed
  have "utf8_encode ((v # vs) ! k) =
          Inr (slice sb' (offs' ! (length offs + k - 1)) (offs' ! (length offs + k)))"
    if "k < length (v # vs)" "(v # vs) ! k \<noteq> []" for k
  proof (cases k)
    case 0
    with that b o0 o1 hd show ?thesis by simp
  next
    case (Suc k')
    with that sl [of k'] show ?thesis by simp
  qed
  with len t1 t2 show ?case by simp
qed

lemma read_offsets_pack:
  "pack_offsets offs = Inr ob \<Longrightarrow> read_offsets (length offs) (ob @ rest) = Inr (offs, rest)"
proof (induction offs arbitrary: ob)
  case Nil
  then show ?case by simp
next
  case (Cons off offs)
  from Cons.prems obtain b ob' where
    b: "pack_u32 (int off) = Inr b" and ob': "pack_offsets offs = Inr ob'" and ob: "ob = b @ ob'"
    by (auto simp: ebind_Inr)
  from b have bb: "b = le_bytes 4 off" and lt: "off < 256 ^ 4"
    by (simp_all add: pack_u32_def pack_uint_Inr)
  have len: "length b = 4" by (simp add: bb)
  have u: "unpack_uint 4 b = Inr off"
    unfolding bb using lt by (rule unpack_uint_le_bytes)
  show ?case
    by (simp add: ob f_read_append [OF len] u Cons.IH [OF ob'] ebind_def)
qed

lemma read_strings_payload:
  assumes "string_payload vs = Inr p"
    and "\<forall>k<length vs. null_bit bm k = (vs ! k = [])"
    and "length vs \<le> 8 * length bm"
  shows "ebind (read_offsets (length vs + 1) p)
           (\<lambda>(offsets, concat_buf). read_strings bm offsets concat_buf 0 (length vs))
         = Inr (map (rendered env DT_STRING) vs)"
proof -
  from assms(1) obtain offs sb ob where
    so: "string_offsets vs [0] [] = Inr (offs, sb)"
    and po: "pack_offsets offs = Inr ob" and p: "p = ob @ sb"
    by (auto simp: string_payload_def ebind_Inr)
  from string_offsets_spec [OF so]
  have len: "length offs = length vs + 1"
    and sl: "\<And>k. k < length vs \<Longrightarrow> vs ! k \<noteq> [] \<Longrightarrow>
             utf8_encode (vs ! k) = Inr (slice sb (offs ! k) (offs ! Suc k))"
    by auto
  have ro: "read_offsets (length vs + 1) p = Inr (offs, sb)"
    using read_offsets_pack [OF po, of sb] by (simp add: p len)
  have dec: "utf8_decode (slice sb (offs ! k) (offs ! Suc k)) = Inr (vs ! k)"
    if "k < length vs" "vs ! k \<noteq> []" for k
    by (rule utf8_decode_encode [OF sl [OF that]])
  have "read_strings bm offs sb 0 (length vs) =
          Inr (map (\<lambda>j. if null_bit bm j then None
                         else Some (projr (utf8_decode (slice sb (offs ! j) (offs ! Suc j)))))
                 [0..<0 + length vs])"
    using assms(2,3) len dec by (intro read_strings_eq) auto
  also have "map (\<lambda>j. if null_bit bm j then None
                         else Some (projr (utf8_decode (slice sb (offs ! j) (offs ! Suc j)))))
                 [0..<0 + length vs] = map (rendered env DT_STRING) vs"
    using assms(2) dec
    by (intro nth_equalityI)
       (auto simp: rendered_def DT_STRING_def DT_INT32_def DT_FLOAT64_def)
  finally show ?thesis
    using ro by (simp add: ebind_def del: read_offsets.simps)
qed

lemma column_roundtrip:
  assumes "column_buffer env n dt vs = Inr un" and "length vs = n"
  shows "decode_column env dt n un = Inr (map (rendered env dt) vs)"
proof -
  from build_null_bitmap_ok [OF assms(2)] obtain bm where
    bm: "build_null_bitmap n vs = Inr bm" and lbm: "length bm = (n + 7) div 8"
    and nb: "\<And>j. j < n \<Longrightarrow> null_bit bm j = (vs ! j = [])"
    by blast
  let ?payload = "if dt = DT_INT32 then int32_payload env vs
                  else if dt = DT_FLOAT64 then float64_payload env vs
                  else if dt = DT_STRING then string_payload vs
                  else Inl ValueError"
  from assms(1) obtain h p where
    h: "pack_u32 (int (length bm)) = Inr h" and p: "?payload = Inr p"
    and un: "un = h @ bm @ p"
    by (auto simp: column_buffer_def bm ebind_Inr)
  from h have hh: "h = le_bytes 4 (length bm)" and lt: "length bm < 256 ^ 4"
    by (simp_all add: pack_u32_def pack_uint_Inr)
  have lh: "length h = 4" by (simp add: hh)
  have uh: "unpack_uint 4 h = Inr (length bm)"
    unfolding hh using lt by (rule unpack_uint_le_bytes)
  have cover: "n \<le> 8 * length bm"
    unfolding lbm by simp
  have isn: "is_null bm (0 + k) = Inr (vs ! k = [])" if "k < length vs" for k
    using that assms(2) cover nb [of k] by (simp add: is_null_eq)
  have r1: "f_read un 4 = (h, bm @ p)"
    unfolding un using lh by (rule f_read_append)
  have r2: "f_read (bm @ p) (length bm) = (bm, p)"
    by (rule f_read_append) simp
  have body: "decode_column env dt n un =
      (if dt = DT_INT32 then read_int32s bm 0 n p
       else if dt = DT_FLOAT64 then read_float64s env bm 0 n p
       else if dt = DT_STRING then
         ebind (read_offsets (n + 1) p)
           (\<lambda>(offsets, concat_buf). read_strings bm offsets concat_buf 0 n)
       else Inl ValueError)"
    by (simp add: decode_column_def r1 uh r2 ebind_def del: read_offsets.simps)
  consider (i) "dt = DT_INT32" | (f) "dt \<noteq> DT_INT32" "dt = DT_FLOAT64"
    | (s) "dt \<noteq> DT_INT32" "dt \<noteq> DT_FLOAT64" "dt = DT_STRING"
    using p by (auto split: if_splits)
  then show ?thesis
  proof cases
    case i
    with p have "int32_payload env vs = Inr p" by simp
    from read_int32s_payload [OF this, of bm 0 "[]"] isn
    show ?thesis unfolding body using i assms(2) by simp
  next
    case f
    with p have "float64_payload env vs = Inr p" by simp
    from read_float64s_payload [OF this, of bm 0 "[]"] isn
    show ?thesis unfolding body using f assms(2) by simp
  next
    case s
    with p have "string_payload vs = Inr p" by simp
    from read_strings_payload [OF this, of bm env] nb cover
    show ?thesis unfolding body using s assms(2) by (simp del: read_offsets.simps)
  qed
qed

subsection \<open>Transposition, the columns and their offsets\<close>

lemma foldl_append_row:
  "foldl (append_row c) (map (\<lambda>i. map (\<lambda>r. cell r i) pre) [0..<c]) rows =
     map (\<lambda>i. map (\<lambda>r. cell r i) (pre @ rows)) [0..<c]"
proof (induction rows arbitrary: pre)
  case Nil
  then show ?case by simp
next
  case (Cons r rows)
  have "append_row c (map (\<lambda>i. map (\<lambda>r. cell r i) pre) [0..<c]) r =
          map (\<lambda>i. map (\<lambda>r. cell r i) (pre @ [r])) [0..<c]"
    by (simp add: append_row_def)
  then show ?case
    using Cons.IH [of "pre @ [r]"] by simp
qed

lemma cols_values_eq:
  "cols_values c rows = map (\<lambda>i. map (\<lambda>r. cell r i) rows) [0..<c]"
proof -
  have "replicate c [] = map (\<lambda>i. map (\<lambda>r. cell r i) []) [0..<c]"
    by (simp add: map_replicate_const)
  then show ?thesis
    using foldl_append_row [of c "[]" rows] by (simp add: cols_values_def)
qed

lemma encode_columns_spec:
  assumes "encode_columns env n hcs cvs = Inr (blocks, metas)" and "length cvs = length hcs"
  shows "length blocks = length hcs \<and> length metas = length hcs \<and>
         (\<forall>j<length hcs. \<exists>un. column_buffer env n (snd (hcs ! j)) (cvs ! j) = Inr un \<and>
             blocks ! j = zlib_compress env un \<and>
             metas ! j = \<lparr>name = fst (hcs ! j), dtype = snd (hcs ! j), offset = 0,
                          compressed_size = length (blocks ! j),
                          uncompressed_size = length un\<rparr>)"
  using assms
proof (induction hcs arbitrary: cvs blocks metas)
  case Nil
  then show ?case by simp
next
  case (Cons hc hcs)
  obtain nm dt where hc: "hc = (nm, dt)" by (cases hc)
  from Cons.prems(2) obtain vs cvs' where cvs: "cvs = vs # cvs'" and l: "length cvs' = length hcs"
    by (cases cvs) auto
  from Cons.prems(1) obtain un blocks' metas' where
    un: "column_buffer env n dt vs = Inr un"
    and rec: "encode_columns env n hcs cvs' = Inr (blocks', metas')"
    and bl: "blocks = zlib_compress env un # blocks'"
    and ms: "metas = \<lparr>name = nm, dtype = dt, offset = 0,
                       compressed_size = length (zlib_compress env un),
                       uncompressed_size = length un\<rparr> # metas'"
    by (auto simp: hc cvs ebind_Inr Let_def)
  note ih = Cons.IH [OF rec l]
  show ?case
  proof (intro conjI allI impI)
    show "length blocks = length (hc # hcs)" using ih bl by simp
    show "length metas = length (hc # hcs)" using ih ms by simp
    fix j assume "j < length (hc # hcs)"
    then show "\<exists>un. column_buffer env n (snd ((hc # hcs) ! j)) (cvs ! j) = Inr un \<and>
             blocks ! j = zlib_compress env un \<and>
             metas ! j = \<lparr>name = fst ((hc # hcs) ! j), dtype = snd ((hc # hcs) ! j), offset = 0,
                          compressed_size = length (blocks ! j),
                          uncompressed_size = length un\<rparr>"
      using ih un by (cases j) (auto simp: hc cvs bl ms)
  qed
qed

lemma length_assign_offsets [simp]: "length (assign_offsets c ms) = length ms"
  by (induction ms arbitrary: c) simp_all

lemma assign_offsets_nth:
  "j < length ms \<Longrightarrow>
     assign_offsets c ms ! j =
       (ms ! j)\<lparr>offset := c + sum_list (map compressed_size (take j ms))\<rparr>"
proof (induction ms arbitrary: c j)
  case Nil
  then show ?case by simp
next
  case (Cons m ms)
  then show ?case by (cases j) (simp_all add: add.assoc)
qed

lemma block_at:
  "j < length blocks \<Longrightarrow>
     take (length (blocks ! j)) (drop (sum_list (map length (take j blocks))) (concat blocks))
       = blocks ! j"
proof (induction blocks arbitrary: j)
  case Nil
  then show ?case by simp
next
  case (Cons b blocks)
  then show ?case by (cases j) simp_all
qed

subsection \<open>The header directory\<close>

lemma build_header_entry:
  assumes "build_header final (hc # hcs) (meta # metas) = Inr hb"
  obtains name_b b1 b2 b3 b4 b5 bs where
    "utf8_encode (fst hc) = Inr name_b"
    "length name_b < 256 ^ 2" "b1 = le_bytes 2 (length name_b)"
    "0 \<le> snd hc" "snd hc < 256" "b2 = le_bytes 1 (nat (snd hc))"
    "final \<Longrightarrow> offset meta < 256 ^ 8"
    "b3 = le_bytes 8 (if final then offset meta else 0)"
    "compressed_size meta < 256 ^ 8" "b4 = le_bytes 8 (compressed_size meta)"
    "uncompressed_size meta < 256 ^ 8" "b5 = le_bytes 8 (uncompressed_size meta)"
    "build_header final hcs metas = Inr bs"
    "hb = b1 @ name_b @ b2 @ b3 @ b4 @ b5 @ bs"
proof -
  from assms obtain name_b b1 b2 b3 b4 b5 bs where
    e: "utf8_encode (fst hc) = Inr name_b"
    and p1: "pack_u16 (int (length name_b)) = Inr b1"
    and p2: "pack_u8 (snd hc) = Inr b2"
    and p3: "pack_u64 (if final then int (offset meta) else 0) = Inr b3"
    and p4: "pack_u64 (int (compressed_size meta)) = Inr b4"
    and p5: "pack_u64 (int (uncompressed_size meta)) = Inr b5"
    and r: "build_header final hcs metas = Inr bs"
    and hb: "hb = b1 @ name_b @ b2 @ b3 @ b4 @ b5 @ bs"
    by (auto simp: ebind_Inr)
  have p3': "pack_u64 (int (if final then offset meta else 0)) = Inr b3"
    using p3 by (cases final) simp_all
  show thesis
  proof (rule that [OF e _ _ _ _ _ _ _ _ _ _ _ r hb])
    show "length name_b < 256 ^ 2" "b1 = le_bytes 2 (length name_b)"
      using p1 by (simp_all add: pack_u16_def pack_uint_Inr)
    show "0 \<le> snd hc" "snd hc < 256" "b2 = le_bytes 1 (nat (snd hc))"
      using p2 by (simp_all add: pack_u8_def pack_uint_def split: if_splits)
    show "final \<Longrightarrow> offset meta < 256 ^ 8"
      using p3' by (simp add: pack_u64_def pack_uint_Inr)
    show "b3 = le_bytes 8 (if final then offset meta else 0)"
      using p3' unfolding pack_u64_def pack_uint_Inr by blast
    show "compressed_size meta < 256 ^ 8" "b4 = le_bytes 8 (compressed_size meta)"
      using p4 by (simp_all add: pack_u64_def pack_uint_Inr)
    show "uncompressed_size meta < 256 ^ 8" "b5 = le_bytes 8 (uncompressed_size meta)"
      using p5 by (simp_all add: pack_u64_def pack_uint_Inr)
  qed
qed

lemma build_header_length:
  assumes "build_header final hcs metas = Inr hb" and "length metas = length hcs"
  shows "length hb = directory_size hcs"
  using assms
proof (induction hcs arbitrary: metas hb)
  case Nil
  then show ?case by (simp add: directory_size_def)
next
  case (Cons hc hcs)
  from Cons.prems(2) obtain meta metas' where m: "metas = meta # metas'"
    and l: "length metas' = length hcs"
    by (cases metas) auto
  from Cons.prems(1) [unfolded m] obtain name_b b1 b2 b3 b4 b5 bs where
    e: "utf8_encode (fst hc) = Inr name_b"
    and bs: "b1 = le_bytes 2 (length name_b)" "b2 = le_bytes 1 (nat (snd hc))"
      "b3 = le_bytes 8 (if final then offset meta else 0)"
      "b4 = le_bytes 8 (compressed_size meta)" "b5 = le_bytes 8 (uncompressed_size meta)"
    and r: "build_header final hcs metas' = Inr bs"
    and hb: "hb = b1 @ name_b @ b2 @ b3 @ b4 @ b5 @ bs"
    by (rule build_header_entry)
  have "length bs = directory_size hcs"
    using r l by (rule Cons.IH)
  then show ?case
    by (simp add: hb bs directory_size_def name_utf8_len_def e)
qed

lemma unpack_from_at':
  "length pre = p \<Longrightarrow> length b = k \<Longrightarrow> unpack_from k (pre @ b @ post) p = Inr (le_nat b)"
  by (simp add: unpack_from_def)

lemma slice_at: "length pre = p \<Longrightarrow> length b = k \<Longrightarrow> slice (pre @ b @ post) p (p + k) = b"
  by (simp add: slice_def)

lemma read_metas_build:
  assumes "build_header True hcs metas = Inr hb" and "length metas = length hcs"
    and "\<forall>j<length hcs. name (metas ! j) = fst (hcs ! j) \<and> dtype (metas ! j) = snd (hcs ! j)"
  shows "read_metas (pre @ hb) (length metas) (length pre) = Inr metas"
  using assms
proof (induction hcs arbitrary: metas hb pre)
  case Nil
  then show ?case by simp
next
  case (Cons hc hcs)
  from Cons.prems(2) obtain meta metas' where m: "metas = meta # metas'"
    and l: "length metas' = length hcs"
    by (cases metas) auto
  from Cons.prems(1) [unfolded m] obtain name_b b1 b2 b3 b4 b5 bs where
    e: "utf8_encode (fst hc) = Inr name_b"
    and n1: "length name_b < 256 ^ 2" and b1: "b1 = le_bytes 2 (length name_b)"
    and d0: "0 \<le> snd hc" and d1: "snd hc < 256" and b2: "b2 = le_bytes 1 (nat (snd hc))"
    and o1: "offset meta < 256 ^ 8" and b3: "b3 = le_bytes 8 (offset meta)"
    and c1: "compressed_size meta < 256 ^ 8" and b4: "b4 = le_bytes 8 (compressed_size meta)"
    and u1: "uncompressed_size meta < 256 ^ 8"
    and b5: "b5 = le_bytes 8 (uncompressed_size meta)"
    and r: "build_header True hcs metas' = Inr bs"
    and hb: "hb = b1 @ name_b @ b2 @ b3 @ b4 @ b5 @ bs"
    by (rule build_header_entry) simp_all
  let ?p = "length pre" and ?n = "length name_b"
  let ?buf = "pre @ hb"
  have nm: "name meta = fst hc" and dt: "dtype meta = snd hc"
    using Cons.prems(3) [rule_format, of 0] by (simp_all add: m)
  have rest: "\<forall>j<length hcs. name (metas' ! j) = fst (hcs ! j) \<and> dtype (metas' ! j) = snd (hcs ! j)"
    using Cons.prems(3) by (auto simp: m dest: spec [where x = "Suc j" for j])
  have v1: "le_nat b1 = ?n" unfolding b1 using n1 by (rule le_nat_le_bytes)
  have v2: "le_nat b2 = nat (snd hc)" unfolding b2 using d0 d1
    by (intro le_nat_le_bytes) simp
  have v3: "le_nat b3 = offset meta" unfolding b3 using o1 by (rule le_nat_le_bytes)
  have v4: "le_nat b4 = compressed_size meta" unfolding b4 using c1 by (rule le_nat_le_bytes)
  have v5: "le_nat b5 = uncompressed_size meta" unfolding b5 using u1 by (rule le_nat_le_bytes)
  have l1: "length b1 = 2" and l2: "length b2 = 1" and l3: "length b3 = 8"
    and l4: "length b4 = 8" and l5: "length b5 = 8"
    by (simp_all add: b1 b2 b3 b4 b5)
  have s1: "unpack_from 2 ?buf ?p = Inr ?n"
    using unpack_from_at' [of pre ?p b1 2 "name_b @ b2 @ b3 @ b4 @ b5 @ bs"]
    by (simp add: hb l1 v1)
  have s2: "slice ?buf (?p + 2) (?p + 2 + ?n) = name_b"
    using slice_at [of "pre @ b1" "?p + 2" name_b ?n "b2 @ b3 @ b4 @ b5 @ bs"]
    by (simp add: hb l1)
  have s3: "unpack_from 1 ?buf (?p + 2 + ?n) = Inr (nat (snd hc))"
    using unpack_from_at' [of "pre @ b1 @ name_b" "?p + 2 + ?n" b2 1 "b3 @ b4 @ b5 @ bs"]
    by (simp add: hb l1 l2 v2)
  have s4: "unpack_from 8 ?buf (?p + 2 + ?n + 1) = Inr (offset meta)"
    using unpack_from_at' [of "pre @ b1 @ name_b @ b2" "?p + 2 + ?n + 1" b3 8 "b4 @ b5 @ bs"]
    by (simp add: hb l1 l2 l3 v3)
  have s5: "unpack_from 8 ?buf (?p + 2 + ?n + 1 + 8) = Inr (compressed_size meta)"
    using unpack_from_at' [of "pre @ b1 @ name_b @ b2 @ b3" "?p + 2 + ?n + 1 + 8" b4 8 "b5 @ bs"]
    by (simp add: hb l1 l2 l3 l4 v4)
  have s6: "unpack_from 8 ?buf (?p + 2 + ?n + 1 + 8 + 8) = Inr (uncompressed_size meta)"
    using unpack_from_at' [of "pre @ b1 @ name_b @ b2 @ b3 @ b4" "?p + 2 + ?n + 1 + 8 + 8" b5 8 bs]
    by (simp add: hb l1 l2 l3 l4 l5 v5)
  have s7: "read_metas ?buf (length metas') (?p + 2 + ?n + 1 + 8 + 8 + 8) = Inr metas'"
    using Cons.IH [OF r l rest, of "pre @ b1 @ name_b @ b2 @ b3 @ b4 @ b5"]
    by (simp add: hb l1 l2 l3 l4 l5 ac_simps)
  have dec: "utf8_decode name_b = Inr (fst hc)"
    using e by (rule utf8_decode_encode)
  have rec: "\<lparr>name = fst hc, dtype = int (nat (snd hc)), offset = offset meta,
              compressed_size = compressed_size meta,
              uncompressed_size = uncompressed_size meta\<rparr> = meta"
    using nm dt d0 by simp
  have "read_metas ?buf (Suc (length metas')) ?p = Inr (meta # metas')"
    by (simp only: read_metas.simps s1 s2 s3 s4 s5 s6 s7 dec rec ebind_def sum.case)
  then show ?case by (simp add: m)
qed

subsection \<open>Reading a file that was written\<close>

lemma length_cols_values [simp]: "length (cols_values c rows) = c"
  by (simp add: cols_values_eq)

lemma cols_values_nth:
  "j < c \<Longrightarrow> cols_values c rows ! j = map (\<lambda>r. cell r j) rows"
  by (simp add: cols_values_eq)

lemma write_structure:
  assumes "CCFWriter_write env schema rows = Inr f"
  obtains blocks metas0 hc where
    "encode_columns env (length rows) schema (cols_values (length schema) rows)
       = Inr (blocks, metas0)"
    "build_header True schema (assign_offsets (22 + directory_size schema) metas0) = Inr hc"
    "length hc = directory_size schema"
    "directory_size schema < 256 ^ 4" "length rows < 256 ^ 8" "length schema < 256 ^ 2"
    "f = MAGIC @ [1] @ le_bytes 4 (directory_size schema) @ le_bytes 8 (length rows)
           @ le_bytes 2 (length schema) @ hc @ concat blocks"
proof -
  from assms obtain blocks metas0 hc0 hc v hs nr nc where
    enc: "encode_columns env (length rows) schema (cols_values (length schema) rows)
            = Inr (blocks, metas0)"
    and h0: "build_header False schema metas0 = Inr hc0"
    and h1: "build_header True schema
               (assign_offsets (length MAGIC + 1 + 4 + 8 + 2 + length hc0) metas0) = Inr hc"
    and v: "pack_u8 VERSION = Inr v"
    and hs: "pack_u32 (int (length hc)) = Inr hs"
    and nr: "pack_u64 (int (length rows)) = Inr nr"
    and nc: "pack_u16 (int (length (assign_offsets (length MAGIC + 1 + 4 + 8 + 2 + length hc0)
                                      metas0))) = Inr nc"
    and f: "f = MAGIC @ v @ hs @ nr @ nc @ hc @ concat blocks"
    by (auto simp: CCFWriter_write_def Let_def ebind_Inr split: prod.splits)
  have lm: "length metas0 = length schema"
    using encode_columns_spec [OF enc] by simp
  have l0: "length hc0 = directory_size schema"
    using h0 lm by (rule build_header_length)
  have pre: "length MAGIC + 1 + 4 + 8 + 2 + length hc0 = 22 + directory_size schema"
    by (simp add: MAGIC_def l0)
  have l1: "length hc = directory_size schema"
    using h1 by (rule build_header_length) (simp add: lm)
  have vv: "v = [1]"
    using v by (simp add: pack_u8_def pack_uint_def VERSION_def le_bytes_unfold)
  show thesis
  proof (rule that [OF enc _ l1])
    show "build_header True schema (assign_offsets (22 + directory_size schema) metas0) = Inr hc"
      using h1 by (simp only: pre)
    show "directory_size schema < 256 ^ 4"
      using hs by (simp add: pack_u32_def pack_uint_Inr l1)
    show "length rows < 256 ^ 8"
      using nr by (simp add: pack_u64_def pack_uint_Inr)
    show "length schema < 256 ^ 2"
      using nc by (simp add: pack_u16_def pack_uint_Inr lm)
    show "f = MAGIC @ [1] @ le_bytes 4 (directory_size schema) @ le_bytes 8 (length rows)
           @ le_bytes 2 (length schema) @ hc @ concat blocks"
      using hs nr nc
      by (simp add: f vv pack_u16_def pack_u32_def pack_u64_def pack_uint_Inr l1 lm)
  qed
qed


lemma encode_columns_nth:
  assumes "encode_columns env n hcs cvs = Inr (blocks, metas)" and "length cvs = length hcs"
    and "j < length hcs"
  obtains un where "column_buffer env n (snd (hcs ! j)) (cvs ! j) = Inr un"
    "blocks ! j = zlib_compress env un"
    "metas ! j = \<lparr>name = fst (hcs ! j), dtype = snd (hcs ! j), offset = 0,
                          compressed_size = length (blocks ! j),
                          uncompressed_size = length un\<rparr>"
  using encode_columns_spec [OF assms(1,2)] assms(3) by blast

lemma metas_of_encode:
  assumes "encode_columns env n schema cvs = Inr (blocks, metas0)"
    and "length cvs = length schema" and "j < length schema"
  shows "name (assign_offsets c metas0 ! j) = fst (schema ! j)"
    and "dtype (assign_offsets c metas0 ! j) = snd (schema ! j)"
    and "compressed_size (assign_offsets c metas0 ! j) = length (blocks ! j)"
    and "offset (assign_offsets c metas0 ! j) = c + sum_list (map length (take j blocks))"
proof -
  note sp = encode_columns_spec [OF assms(1,2)]
  have lm: "length metas0 = length schema" and lb: "length blocks = length schema"
    using sp by simp_all
  have cs: "compressed_size (metas0 ! i) = length (blocks ! i)" if "i < length schema" for i
  proof -
    from encode_columns_nth [OF assms(1,2) that] obtain un :: bytes where
      m: "metas0 ! i = \<lparr>name = fst (schema ! i), dtype = snd (schema ! i), offset = 0,
                      compressed_size = length (blocks ! i), uncompressed_size = length un\<rparr>"
      by blast
    show ?thesis by (subst m) simp
  qed
  from encode_columns_nth [OF assms] obtain un :: bytes where
    m: "metas0 ! j = \<lparr>name = fst (schema ! j), dtype = snd (schema ! j), offset = 0,
                      compressed_size = length (blocks ! j), uncompressed_size = length un\<rparr>"
    by blast
  have "map compressed_size (take j metas0) = map length (take j blocks)"
    using assms(3) lm lb cs by (intro nth_equalityI) simp_all
  then show "offset (assign_offsets c metas0 ! j) = c + sum_list (map length (take j blocks))"
    using assms(3) lm by (simp add: assign_offsets_nth)
  have aj: "assign_offsets c metas0 ! j =
      (metas0 ! j)\<lparr>offset := c + sum_list (map compressed_size (take j metas0))\<rparr>"
    using assms(3) lm by (intro assign_offsets_nth) simp
  show "name (assign_offsets c metas0 ! j) = fst (schema ! j)"
    "dtype (assign_offsets c metas0 ! j) = snd (schema ! j)"
    "compressed_size (assign_offsets c metas0 ! j) = length (blocks ! j)"
    unfolding aj by (subst m, simp)+
qed

lemma write_read_header:
  assumes "CCFWriter_write env schema rows = Inr f"
  obtains blocks metas0 hc where
    "encode_columns env (length rows) schema (cols_values (length schema) rows)
       = Inr (blocks, metas0)"
    "length hc = directory_size schema"
    "f = MAGIC @ [1] @ le_bytes 4 (directory_size schema) @ le_bytes 8 (length rows)
           @ le_bytes 2 (length schema) @ hc @ concat blocks"
    "read_header f =
       Inr \<lparr>path = f, num_rows = length rows, num_cols = length schema,
            columns_meta = assign_offsets (22 + directory_size schema) metas0\<rparr>"
proof -
  from write_structure [OF assms] obtain blocks metas0 hc where
    enc: "encode_columns env (length rows) schema (cols_values (length schema) rows)
            = Inr (blocks, metas0)"
    and h1: "build_header True schema (assign_offsets (22 + directory_size schema) metas0)
               = Inr hc"
    and l1: "length hc = directory_size schema"
    and b1: "directory_size schema < 256 ^ 4" and b2: "length rows < 256 ^ 8"
    and b3: "length schema < 256 ^ 2"
    and f: "f = MAGIC @ [1] @ le_bytes 4 (directory_size schema) @ le_bytes 8 (length rows)
           @ le_bytes 2 (length schema) @ hc @ concat blocks"
    by blast
  let ?metas = "assign_offsets (22 + directory_size schema) metas0"
  have lm: "length metas0 = length schema"
    using encode_columns_spec [OF enc] by simp
  have nd: "\<forall>j<length schema. name (?metas ! j) = fst (schema ! j)
              \<and> dtype (?metas ! j) = snd (schema ! j)"
    using metas_of_encode(1,2) [OF enc] by simp
  have "read_metas ([] @ hc) (length ?metas) (length ([] :: bytes)) = Inr ?metas"
    using h1 _ nd by (rule read_metas_build) (simp add: lm)
  then have rm: "read_metas hc (length schema) 0 = Inr ?metas"
    by (simp add: lm)
  have u1: "unpack_uint 1 [1] = Inr 1"
    by (simp add: unpack_uint_def)
  have u2: "unpack_uint 4 (le_bytes 4 (directory_size schema)) = Inr (directory_size schema)"
    using b1 by (rule unpack_uint_le_bytes)
  have u3: "unpack_uint 8 (le_bytes 8 (length rows)) = Inr (length rows)"
    using b2 by (rule unpack_uint_le_bytes)
  have u4: "unpack_uint 2 (le_bytes 2 (length schema)) = Inr (length schema)"
    using b3 by (rule unpack_uint_le_bytes)
  have r0: "f_read f (length MAGIC) = (MAGIC, [1] @ le_bytes 4 (directory_size schema)
              @ le_bytes 8 (length rows) @ le_bytes 2 (length schema) @ hc @ concat blocks)"
    unfolding f by (rule f_read_append) simp
  have r1: "f_read ([1] @ le_bytes 4 (directory_size schema)
              @ le_bytes 8 (length rows) @ le_bytes 2 (length schema) @ hc @ concat blocks) 1
            = ([1], le_bytes 4 (directory_size schema)
              @ le_bytes 8 (length rows) @ le_bytes 2 (length schema) @ hc @ concat blocks)"
    by (rule f_read_append) simp
  have r2: "f_read (le_bytes 4 (directory_size schema)
              @ le_bytes 8 (length rows) @ le_bytes 2 (length schema) @ hc @ concat blocks) 4
            = (le_bytes 4 (directory_size schema),
               le_bytes 8 (length rows) @ le_bytes 2 (length schema) @ hc @ concat blocks)"
    by (rule f_read_append) simp
  have r3: "f_read (le_bytes 8 (length rows) @ le_bytes 2 (length schema) @ hc @ concat blocks) 8
            = (le_bytes 8 (length rows), le_bytes 2 (length schema) @ hc @ concat blocks)"
    by (rule f_read_append) simp
  have r4: "f_read (le_bytes 2 (length schema) @ hc @ concat blocks) 2
            = (le_bytes 2 (length schema), hc @ concat blocks)"
    by (rule f_read_append) simp
  have r5: "f_read (hc @ concat blocks) (directory_size schema) = (hc, concat blocks)"
    using l1 by (rule f_read_append)
  have "read_header f =
       Inr \<lparr>path = f, num_rows = length rows, num_cols = length schema,
            columns_meta = ?metas\<rparr>"
    by (simp only: read_header_def r0 r1 r2 r3 r4 r5 u1 u2 u3 u4 rm ebind_def
          prod.case sum.case if_False simp_thms)
  with enc l1 f show thesis by (rule that)
qed


lemma find_meta_first:
  assumes "j < length ms" and "name (ms ! j) = nm" and "\<forall>i<j. name (ms ! i) \<noteq> nm"
  shows "find_meta ms nm = Some (ms ! j)"
  using assms
proof (induction ms arbitrary: j)
  case Nil
  then show ?case by simp
next
  case (Cons m ms)
  show ?case
  proof (cases j)
    case 0
    with Cons.prems show ?thesis by simp
  next
    case (Suc k)
    have "name m \<noteq> nm"
      using Cons.prems(3) [rule_format, of 0] Suc by simp
    moreover have "find_meta ms nm = Some (ms ! k)"
      using Cons.prems Suc by (intro Cons.IH) auto
    ultimately show ?thesis using Suc by simp
  qed
qed

lemma write_read_column:
  assumes w: "CCFWriter_write env schema rows = Inr f"
    and small: "length f < 2 ^ 63"
    and codec: "\<forall>x. zlib_decompress env (zlib_compress env x) = Inr x"
    and j: "j < length schema"
    and first: "\<forall>i<j. fst (schema ! i) \<noteq> fst (schema ! j)"
  shows "\<exists>rd. read_header f = Inr rd \<and> num_rows rd = length rows \<and>
           read_column env rd (fst (schema ! j)) =
             Inr (map (\<lambda>r. rendered env (snd (schema ! j)) (cell r j)) rows)"
proof -
  from write_read_header [OF w] obtain blocks metas0 hc where
    enc: "encode_columns env (length rows) schema (cols_values (length schema) rows)
            = Inr (blocks, metas0)"
    and l1: "length hc = directory_size schema"
    and f: "f = MAGIC @ [1] @ le_bytes 4 (directory_size schema) @ le_bytes 8 (length rows)
           @ le_bytes 2 (length schema) @ hc @ concat blocks"
    and rh: "read_header f =
       Inr \<lparr>path = f, num_rows = length rows, num_cols = length schema,
            columns_meta = assign_offsets (22 + directory_size schema) metas0\<rparr>"
    by blast
  let ?metas = "assign_offsets (22 + directory_size schema) metas0"
  let ?rd = "\<lparr>path = f, num_rows = length rows, num_cols = length schema,
              columns_meta = ?metas\<rparr>"
  let ?S = "sum_list (map length (take j blocks))"
  have lc: "length (cols_values (length schema) rows) = length schema" by simp
  note sp = encode_columns_spec [OF enc lc]
  note mo = metas_of_encode [OF enc lc]
  have lm: "length ?metas = length schema" and lb: "length blocks = length schema"
    using sp by simp_all
  from sp j obtain un where
    un: "column_buffer env (length rows) (snd (schema ! j))
           (cols_values (length schema) rows ! j) = Inr un"
    and bj: "blocks ! j = zlib_compress env un"
    by blast
  have cv: "cols_values (length schema) rows ! j = map (\<lambda>r. cell r j) rows"
    using j by (rule cols_values_nth)
  have dec: "decode_column env (snd (schema ! j)) (length rows) un =
               Inr (map (rendered env (snd (schema ! j))) (map (\<lambda>r. cell r j) rows))"
    using un [unfolded cv] by (rule column_roundtrip) simp
  have fm: "find_meta ?metas (fst (schema ! j)) = Some (?metas ! j)"
  proof (rule find_meta_first)
    show "j < length ?metas" using j lm by simp
    show "name (?metas ! j) = fst (schema ! j)" using mo(1) [OF j] .
    show "\<forall>i<j. name (?metas ! i) \<noteq> fst (schema ! j)"
      using first j mo(1) by simp
  qed
  have off: "offset (?metas ! j) = (22 + directory_size schema) + ?S"
    and cs: "compressed_size (?metas ! j) = length (blocks ! j)"
    and dt: "dtype (?metas ! j) = snd (schema ! j)"
    using mo(4) [OF j] mo(3) [OF j] mo(2) [OF j] by simp_all
  define P where "P = MAGIC @ [1] @ le_bytes 4 (directory_size schema)
           @ le_bytes 8 (length rows) @ le_bytes 2 (length schema) @ hc"
  have fP: "f = P @ concat blocks"
    by (simp add: f P_def)
  have lP: "22 + directory_size schema = length P"
    by (simp add: P_def MAGIC_def l1)
  have dr: "drop (22 + directory_size schema + ?S) f = drop ?S (concat blocks)"
    unfolding fP lP by simp
  have blk: "f_read (drop (offset (?metas ! j)) f) (compressed_size (?metas ! j))
               = (blocks ! j, drop (length (blocks ! j)) (drop ?S (concat blocks)))"
    using block_at [of j blocks] j lb by (simp add: f_read_def off cs dr)
  have "blocks = take j blocks @ blocks ! j # drop (Suc j) blocks"
    using j lb by (simp add: id_take_nth_drop)
  then have "length (concat blocks) =
      length (concat (take j blocks @ blocks ! j # drop (Suc j) blocks))"
    by simp
  then have "?S + length (blocks ! j) \<le> length (concat blocks)"
    by (simp add: length_concat)
  moreover have "length f = 22 + directory_size schema + length (concat blocks)"
    unfolding fP lP by simp
  ultimately have "offset (?metas ! j) + compressed_size (?metas ! j) \<le> length f"
    by (simp add: off cs)
  with small have lim: "\<not> 2 ^ 63 \<le> offset (?metas ! j)"
    "\<not> 2 ^ 63 \<le> compressed_size (?metas ! j)"
    by simp_all
  have "read_column env ?rd (fst (schema ! j)) =
          Inr (map (\<lambda>r. rendered env (snd (schema ! j)) (cell r j)) rows)"
    using codec lim
    by (simp add: read_column_def fm blk bj dt dec [unfolded bj] ebind_def o_def)
  with rh show ?thesis by simp
qed

subsection \<open>Rows shorter or longer than the schema\<close>

lemma replicate_unfold: "replicate n x = (if n = 0 then [] else x # replicate (n - 1) x)"
  by (cases n) simp_all

lemmas writer_eval = CCFWriter_write_def cols_values_eq cell_def build_null_bitmap_def
  column_buffer_def string_payload_def Let_def upt_rec replicate_unfold write_then_read_def
  returns_def

lemma cell_fit_row: "i < c \<Longrightarrow> cell (fit_row c r) i = cell r i"
  by (auto simp: cell_def fit_row_def nth_append)

lemma cols_values_fit_row:
  "cols_values c (map (fit_row c) rows) = cols_values c rows"
  by (simp add: cols_values_eq cell_fit_row o_def)

text \<open>
  C8: a row shorter than the schema is written as if filled up on the right with empty
  strings (nulls), and the cells of a row beyond the last column are ignored: writing
  the rows is writing the rows made to fit. With the schema \<^verbatim>\<open>[(a, INT32), (b, STRING)]\<close>
  and the rows \<^verbatim>\<open>["1"]\<close>, \<^verbatim>\<open>["2", "hello"]\<close>, \<^verbatim>\<open>["3", "hi", "extra"]\<close>, column \<^verbatim>\<open>a\<close> reads
  back as \<^verbatim>\<open>["1", "2", "3"]\<close> and column \<^verbatim>\<open>b\<close> as \<^verbatim>\<open>[None, "hello", "hi"]\<close>.
\<close>

theorem short_and_long_rows:
  "CCFWriter_write env schema rows =
     CCFWriter_write env schema (map (fit_row (length schema)) rows)
   \<and> fit_row 2 [lit ''1''] = [lit ''1'', []]
   \<and> fit_row 2 [lit ''3'', lit ''hi'', lit ''extra''] = [lit ''3'', lit ''hi'']
   \<and> write_then_read sample_env [(lit ''a'', DT_INT32), (lit ''b'', DT_STRING)]
         [[lit ''1''], [lit ''2'', lit ''hello''], [lit ''3'', lit ''hi'', lit ''extra'']]
         (lit ''a'')
       = Inr [Some (lit ''1''), Some (lit ''2''), Some (lit ''3'')]
   \<and> write_then_read sample_env [(lit ''a'', DT_INT32), (lit ''b'', DT_STRING)]
         [[lit ''1''], [lit ''2'', lit ''hello''], [lit ''3'', lit ''hi'', lit ''extra'']]
         (lit ''b'')
       = Inr [None, Some (lit ''hello''), Some (lit ''hi'')]"
proof (intro conjI)
  show "CCFWriter_write env schema rows =
     CCFWriter_write env schema (map (fit_row (length schema)) rows)"
    by (simp add: CCFWriter_write_def cols_values_fit_row)
  show "fit_row 2 [lit ''1''] = [lit ''1'', []]"
    by (simp add: fit_row_def)
  show "fit_row 2 [lit ''3'', lit ''hi'', lit ''extra''] = [lit ''3'', lit ''hi'']"
    by (simp add: fit_row_def)
  show "write_then_read sample_env [(lit ''a'', DT_INT32), (lit ''b'', DT_STRING)]
         [[lit ''1''], [lit ''2'', lit ''hello''], [lit ''3'', lit ''hi'', lit ''extra'']]
         (lit ''a'')
       = Inr [Some (lit ''1''), Some (lit ''2''), Some (lit ''3'')]"
    by (simp add: writer_eval codec_eval sample_eval py_int_eval reader_eval)
  show "write_then_read sample_env [(lit ''a'', DT_INT32), (lit ''b'', DT_STRING)]
         [[lit ''1''], [lit ''2'', lit ''hello''], [lit ''3'', lit ''hi'', lit ''extra'']]
         (lit ''b'')
       = Inr [None, Some (lit ''hello''), Some (lit ''hi'')]"
    by (simp add: writer_eval codec_eval sample_eval py_int_eval reader_eval
          read_offsets_unfold read_strings_unfold)
qed

lemma sample_codec: "\<forall>x. zlib_decompress sample_env (zlib_compress sample_env x) = Inr x"
  by (simp add: sample_eval)

subsection \<open>The layout of the file\<close>




subsection \<open>Tables the writer accepts\<close>

lemma utf8_char_ok:
  "scalar_value c \<Longrightarrow> \<exists>b. utf8_char c = Inr b \<and> length b = utf8_width c"
  by (auto simp: scalar_value_def utf8_char_def utf8_width_def)

lemma utf8_encode_ok:
  "well_formed s \<Longrightarrow> \<exists>b. utf8_encode s = Inr b \<and> length b = utf8_size s"
proof (induction s)
  case Nil
  show ?case by (simp add: utf8_size_def)
next
  case (Cons c cs)
  from Cons.prems have c: "scalar_value c" and cs: "well_formed cs"
    by (simp_all add: well_formed_def)
  from utf8_char_ok [OF c] obtain b where b: "utf8_char c = Inr b" "length b = utf8_width c"
    by blast
  from Cons.IH [OF cs] obtain bs where bs: "utf8_encode cs = Inr bs" "length bs = utf8_size cs"
    by blast
  show ?case
    using b bs by (simp add: ebind_def utf8_size_def)
qed

lemma name_utf8_len_eq: "well_formed nm \<Longrightarrow> name_utf8_len nm = utf8_size nm"
  using utf8_encode_ok [of nm] by (auto simp: name_utf8_len_def)

lemma directory_size_eq:
  "list_all (\<lambda>hc. well_formed (fst hc)) schema \<Longrightarrow>
     directory_size schema = sum_list (map (\<lambda>hc. 2 + utf8_size (fst hc) + 1 + 8 + 8 + 8) schema)"
  by (induction schema) (simp_all add: directory_size_def name_utf8_len_eq)

lemma int32_payload_ok:
  "list_all (\<lambda>v. v = [] \<or> int32_text env v) vs \<Longrightarrow>
     \<exists>p. int32_payload env vs = Inr p \<and> length p = 4 * length vs"
proof (induction vs)
  case Nil
  show ?case by simp
next
  case (Cons v vs)
  from Cons.prems have v: "v = [] \<or> int32_text env v"
    and vs: "list_all (\<lambda>v. v = [] \<or> int32_text env v) vs"
    by simp_all
  from Cons.IH [OF vs] obtain p where p: "int32_payload env vs = Inr p" "length p = 4 * length vs"
    by blast
  have "\<exists>b. (if v = [] then pack_i32 0 else ebind (py_int env v) pack_i32) = Inr b
           \<and> length b = 4"
  proof (cases "v = []")
    case True
    then show ?thesis by (simp add: pack_i32_def)
  next
    case False
    with v obtain n where n: "py_int env v = Inr n" "- (2 ^ 31) \<le> n" "n < 2 ^ 31"
      by (auto simp: int32_text_def split: sum.splits)
    have "pack_i32 n = Inr (le_bytes 4 (nat (n mod 2 ^ 32)))"
      using n(2,3) by (simp only: pack_i32_Inr simp_thms)
    with False n(1) show ?thesis by (simp add: ebind_def)
  qed
  then obtain b where
    b: "(if v = [] then pack_i32 0 else ebind (py_int env v) pack_i32) = Inr b" "length b = 4"
    by blast
  show ?case
    unfolding int32_payload.simps b(1) by (simp add: ebind_def p b(2))
qed

lemma float64_payload_ok:
  "list_all (\<lambda>v. v = [] \<or> parses_float env v) vs \<Longrightarrow>
     \<exists>p. float64_payload env vs = Inr p \<and> length p = 8 * length vs"
proof (induction vs)
  case Nil
  show ?case by simp
next
  case (Cons v vs)
  from Cons.prems have v: "v = [] \<or> parses_float env v"
    and vs: "list_all (\<lambda>v. v = [] \<or> parses_float env v) vs"
    by simp_all
  from Cons.IH [OF vs] obtain p where
    p: "float64_payload env vs = Inr p" "length p = 8 * length vs"
    by blast
  show ?case
    using v p by (auto simp: ebind_def parses_float_def pack_f64_def split: option.splits)
qed

lemma string_offsets_ok:
  assumes "list_all well_formed vs" and "offs \<noteq> []"
  shows "\<exists>offs' sb'. string_offsets vs offs sb = Inr (offs', sb')
           \<and> length offs' = length offs + length vs
           \<and> length sb' = length sb + sum_list (map utf8_size vs)
           \<and> (\<forall>x\<in>set offs'. x \<in> set offs \<or> x \<le> last offs + sum_list (map utf8_size vs))"
  using assms
proof (induction vs arbitrary: offs sb)
  case Nil
  then show ?case by simp
next
  case (Cons v vs)
  from Cons.prems(1) have v: "well_formed v" and vs: "list_all well_formed vs"
    by simp_all
  from utf8_encode_ok [OF v] obtain b where b: "utf8_encode v = Inr b" "length b = utf8_size v"
    by blast
  have e: "utf8_size [] = 0" by (simp add: utf8_size_def)
  define k where "k = (if v = [] then 0 else utf8_size v)"
  have kv: "k = utf8_size v" by (simp add: k_def e)
  define sb1 where "sb1 = (if v = [] then sb else sb @ b)"
  have st: "string_offsets (v # vs) offs sb = string_offsets vs (offs @ [last offs + k]) sb1"
    by (simp add: k_def sb1_def b ebind_def)
  have l1: "length sb1 = length sb + k"
    by (simp add: sb1_def k_def b)
  from Cons.IH [OF vs, of "offs @ [last offs + k]" sb1] obtain offs' sb' where
    r: "string_offsets vs (offs @ [last offs + k]) sb1 = Inr (offs', sb')"
    and lo: "length offs' = length (offs @ [last offs + k]) + length vs"
    and ls: "length sb' = length sb1 + sum_list (map utf8_size vs)"
    and bd: "\<forall>x\<in>set offs'. x \<in> set (offs @ [last offs + k])
               \<or> x \<le> last (offs @ [last offs + k]) + sum_list (map utf8_size vs)"
    by auto
  have "\<forall>x\<in>set offs'. x \<in> set offs \<or> x \<le> last offs + sum_list (map utf8_size (v # vs))"
    using bd by (auto simp: kv)
  with r lo ls l1 show ?case
    unfolding st by (simp add: kv)
qed

lemma pack_offsets_ok:
  "\<forall>x\<in>set offs. x < 2 ^ 32 \<Longrightarrow> \<exists>b. pack_offsets offs = Inr b \<and> length b = 4 * length offs"
proof (induction offs)
  case Nil
  show ?case by simp
next
  case (Cons x offs)
  from Cons.IH Cons.prems obtain b where b: "pack_offsets offs = Inr b" "length b = 4 * length offs"
    by auto
  from Cons.prems have "x < 256 ^ 4" by simp
  then have "pack_u32 (int x) = Inr (le_bytes 4 x)"
    by (simp only: pack_u32_def pack_uint_Inr simp_thms)
  with b show ?case by (simp add: ebind_def)
qed

lemma string_payload_ok:
  assumes "list_all well_formed vs" and "sum_list (map utf8_size vs) < 2 ^ 32"
  shows "\<exists>p. string_payload vs = Inr p
           \<and> length p = 4 * (length vs + 1) + sum_list (map utf8_size vs)"
proof -
  from string_offsets_ok [OF assms(1), of "[0]" "[]"] obtain offs' sb' where
    r: "string_offsets vs [0] [] = Inr (offs', sb')"
    and lo: "length offs' = length vs + 1"
    and ls: "length sb' = sum_list (map utf8_size vs)"
    and bd: "\<forall>x\<in>set offs'. x = 0 \<or> x \<le> sum_list (map utf8_size vs)"
    by auto
  have "\<forall>x\<in>set offs'. x < 2 ^ 32"
    using bd assms(2) by auto
  from pack_offsets_ok [OF this] obtain ob where
    ob: "pack_offsets offs' = Inr ob" "length ob = 4 * length offs'"
    by blast
  show ?thesis
    by (simp add: string_payload_def r ob ebind_def lo ls)
qed

lemma dtypes_distinct: "DT_INT32 \<noteq> DT_FLOAT64" "DT_INT32 \<noteq> DT_STRING" "DT_FLOAT64 \<noteq> DT_STRING"
  by (simp_all add: DT_INT32_def DT_FLOAT64_def DT_STRING_def)

lemma rows_bound: "((n::nat) + 7) div 8 < 2 ^ 32 \<Longrightarrow> n < 2 ^ 35"
  by simp

lemma column_buffer_ok:
  assumes "writable_column env dt vs" and "length vs = n" and "(n + 7) div 8 < 2 ^ 32"
  shows "\<exists>un. column_buffer env n dt vs = Inr un \<and> length un < 2 ^ 39"
proof -
  from build_null_bitmap_ok [OF assms(2)] obtain bm where
    bm: "build_null_bitmap n vs = Inr bm" and lbm: "length bm = (n + 7) div 8"
    by blast
  have "length bm < 256 ^ 4" using assms(3) lbm by simp
  then have nb: "pack_u32 (int (length bm)) = Inr (le_bytes 4 (length bm))"
    by (simp only: pack_u32_def pack_uint_Inr simp_thms)
  let ?payload = "if dt = DT_INT32 then int32_payload env vs
                  else if dt = DT_FLOAT64 then float64_payload env vs
                  else if dt = DT_STRING then string_payload vs
                  else Inl ValueError"
  have n: "n < 2 ^ 35" using assms(3) by (rule rows_bound)
  have "\<exists>p. ?payload = Inr p \<and> length p < 2 ^ 38 + 2 ^ 33"
  proof (cases "dt = DT_INT32")
    case True
    with assms(1) int32_payload_ok [of env vs] n assms(2) show ?thesis
      by (auto simp: writable_column_def)
  next
    case i: False
    show ?thesis
    proof (cases "dt = DT_FLOAT64")
      case True
      with i assms(1) float64_payload_ok [of env vs] n assms(2) show ?thesis
        by (auto simp: writable_column_def)
    next
      case False
      with i assms(1) have s: "dt = DT_STRING" "list_all well_formed vs"
        "sum_list (map utf8_size vs) < 2 ^ 32"
        by (simp_all add: writable_column_def)
      from string_payload_ok [OF s(2,3)] obtain p where
        p: "string_payload vs = Inr p"
        "length p = 4 * (length vs + 1) + sum_list (map utf8_size vs)"
        by blast
      have "length p < 2 ^ 38 + 2 ^ 33"
        using p(2) s(3) n assms(2) by simp
      with p(1) s(1) i False show ?thesis by simp
    qed
  qed
  then obtain p where p: "?payload = Inr p" "length p < 2 ^ 38 + 2 ^ 33"
    by blast
  have "column_buffer env n dt vs = Inr (le_bytes 4 (length bm) @ bm @ p)"
    by (simp only: column_buffer_def bm nb p ebind_def sum.case)
  moreover have "length (le_bytes 4 (length bm) @ bm @ p) < 2 ^ 39"
    using p(2) lbm assms(3) by simp
  ultimately show ?thesis by blast
qed

lemma encode_columns_ok:
  assumes "length cvs = length hcs"
    and "\<forall>j<length hcs. writable_column env (snd (hcs ! j)) (cvs ! j) \<and> length (cvs ! j) = n"
    and "(n + 7) div 8 < 2 ^ 32"
    and "\<forall>x. length (zlib_compress env x) \<le> 2 * length x + 64"
  shows "\<exists>blocks metas. encode_columns env n hcs cvs = Inr (blocks, metas)
           \<and> (\<forall>b\<in>set blocks. length b < 2 ^ 41)
           \<and> (\<forall>m\<in>set metas. uncompressed_size m < 2 ^ 39)"
  using assms(1,2)
proof (induction hcs arbitrary: cvs)
  case Nil
  then show ?case by simp
next
  case (Cons hc hcs)
  obtain nm dt where hc: "hc = (nm, dt)" by (cases hc)
  from Cons.prems(1) obtain vs cvs' where cvs: "cvs = vs # cvs'"
    and l: "length cvs' = length hcs"
    by (cases cvs) auto
  have w: "writable_column env dt vs" and lv: "length vs = n"
    using Cons.prems(2) [rule_format, of 0] by (simp_all add: hc cvs)
  have rest: "\<forall>j<length hcs. writable_column env (snd (hcs ! j)) (cvs' ! j)
                \<and> length (cvs' ! j) = n"
  proof (intro allI impI)
    fix j assume "j < length hcs"
    then show "writable_column env (snd (hcs ! j)) (cvs' ! j) \<and> length (cvs' ! j) = n"
      using Cons.prems(2) [rule_format, of "Suc j"] by (simp add: cvs)
  qed
  from column_buffer_ok [OF w lv assms(3)] obtain un where
    un: "column_buffer env n dt vs = Inr un" and lu: "length un < 2 ^ 39"
    by blast
  from Cons.IH [OF l rest] obtain blocks metas where
    r: "encode_columns env n hcs cvs' = Inr (blocks, metas)"
    and b: "\<forall>b\<in>set blocks. length b < 2 ^ 41"
    and m: "\<forall>m\<in>set metas. uncompressed_size m < 2 ^ 39"
    by blast
  have "length (zlib_compress env un) \<le> 2 * length un + 64"
    using assms(4) by simp
  with lu have lc: "length (zlib_compress env un) < 2 ^ 41"
    by simp
  show ?case
    using b m lc lu by (simp add: hc cvs un r ebind_def Let_def)
qed

lemma build_header_ok:
  assumes "length metas = length hcs"
    and "list_all (\<lambda>hc. well_formed (fst hc) \<and> utf8_size (fst hc) < 2 ^ 16) hcs"
    and "\<forall>hc\<in>set hcs. 0 \<le> snd hc \<and> snd hc < 256"
    and "\<forall>m\<in>set metas. offset m < 2 ^ 64 \<and> compressed_size m < 2 ^ 64
           \<and> uncompressed_size m < 2 ^ 64"
  shows "\<exists>hb. build_header final hcs metas = Inr hb"
  using assms
proof (induction hcs arbitrary: metas)
  case Nil
  then show ?case by simp
next
  case (Cons hc hcs)
  from Cons.prems(1) obtain meta metas' where ms: "metas = meta # metas'"
    and l: "length metas' = length hcs"
    by (cases metas) auto
  from Cons.prems(2) have wf: "well_formed (fst hc)" and sz: "utf8_size (fst hc) < 2 ^ 16"
    and rest: "list_all (\<lambda>hc. well_formed (fst hc) \<and> utf8_size (fst hc) < 2 ^ 16) hcs"
    by simp_all
  from utf8_encode_ok [OF wf] obtain name_b where
    nb: "utf8_encode (fst hc) = Inr name_b" "length name_b = utf8_size (fst hc)"
    by blast
  have "length name_b < 256 ^ 2" using sz nb(2) by simp
  then have p1: "pack_u16 (int (length name_b)) = Inr (le_bytes 2 (length name_b))"
    by (simp only: pack_u16_def pack_uint_Inr simp_thms)
  have p2: "pack_u8 (snd hc) = Inr (le_bytes 1 (nat (snd hc)))"
    using Cons.prems(3) by (simp add: pack_u8_def pack_uint_def)
  have lim: "offset meta < 256 ^ 8" "compressed_size meta < 256 ^ 8"
    "uncompressed_size meta < 256 ^ 8"
    using Cons.prems(4) by (simp_all add: ms)
  have "(if final then offset meta else 0) < 256 ^ 8"
    using lim(1) by simp
  then have p3: "pack_u64 (int (if final then offset meta else 0)) =
                   Inr (le_bytes 8 (if final then offset meta else 0))"
    by (simp only: pack_u64_def pack_uint_Inr simp_thms)
  have p3': "(if final then int (offset meta) else 0) = int (if final then offset meta else 0)"
    by simp
  have p4: "pack_u64 (int (compressed_size meta)) = Inr (le_bytes 8 (compressed_size meta))"
    using lim(2) by (simp only: pack_u64_def pack_uint_Inr simp_thms)
  have p5: "pack_u64 (int (uncompressed_size meta)) = Inr (le_bytes 8 (uncompressed_size meta))"
    using lim(3) by (simp only: pack_u64_def pack_uint_Inr simp_thms)
  have "\<exists>hb. build_header final hcs metas' = Inr hb"
    using l rest Cons.prems(3,4) by (intro Cons.IH) (simp_all add: ms)
  then obtain hb where hb: "build_header final hcs metas' = Inr hb"
    by blast
  show ?case
    unfolding ms build_header.simps p3' by (simp add: nb(1) p1 p2 p3 p4 p5 hb ebind_def)
qed

lemma sum_list_bound:
  "\<forall>x\<in>set xs. f x \<le> (B::nat) \<Longrightarrow> sum_list (map f xs) \<le> length xs * B"
  by (induction xs) auto

lemma writable_column_dtype:
  "writable_column env dt vs \<Longrightarrow> 0 \<le> dt \<and> dt < 256"
  by (auto simp: writable_column_def DT_INT32_def DT_FLOAT64_def DT_STRING_def split: if_splits)

lemma fit_row_nth: "j < c \<Longrightarrow> fit_row c r ! j = cell r j"
  by (auto simp: fit_row_def cell_def nth_append)

lemma table_column_eq:
  "j < c \<Longrightarrow> table_column c rows j = cols_values c rows ! j"
  by (simp add: table_column_def cols_values_nth fit_row_nth)

lemma write_returns:
  assumes lim: "within_limits schema rows"
    and cols: "\<forall>j<length schema.
                 writable_column env (snd (schema ! j)) (table_column (length schema) rows j)"
    and bound: "\<forall>x. length (zlib_compress env x) \<le> 2 * length x + 64"
  shows "\<exists>f. CCFWriter_write env schema rows = Inr f \<and> length f < 2 ^ 63"
proof -
  let ?c = "length schema"
  let ?cvs = "cols_values ?c rows"
  from lim have nc: "?c < 2 ^ 16"
    and names: "list_all (\<lambda>hc. well_formed (fst hc) \<and> utf8_size (fst hc) < 2 ^ 16) schema"
    and dsz: "sum_list (map (\<lambda>hc. 2 + utf8_size (fst hc) + 1 + 8 + 8 + 8) schema) < 2 ^ 32"
    and nb: "(length rows + 7) div 8 < 2 ^ 32"
    by (simp_all add: within_limits_def)
  have "list_all (\<lambda>hc. well_formed (fst hc)) schema"
    using names by (simp add: list_all_iff)
  then have "directory_size schema =
      sum_list (map (\<lambda>hc. 2 + utf8_size (fst hc) + 1 + 8 + 8 + 8) schema)"
    by (rule directory_size_eq)
  with dsz have D: "directory_size schema < 2 ^ 32"
    by simp
  have nr: "length rows < 2 ^ 35"
    using nb by (rule rows_bound)
  have lc: "length ?cvs = ?c" by simp
  have wc: "\<forall>j<?c. writable_column env (snd (schema ! j)) (?cvs ! j)
              \<and> length (?cvs ! j) = length rows"
    using cols by (simp add: table_column_eq cols_values_nth)
  from encode_columns_ok [OF lc wc nb bound] obtain blocks metas0 where
    enc: "encode_columns env (length rows) schema ?cvs = Inr (blocks, metas0)"
    and bb: "\<forall>b\<in>set blocks. length b < 2 ^ 41"
    and mu: "\<forall>m\<in>set metas0. uncompressed_size m < 2 ^ 39"
    by blast
  note sp = encode_columns_spec [OF enc lc]
  have lm: "length metas0 = ?c" and lb: "length blocks = ?c"
    using sp by simp_all
  have dts: "\<forall>hc\<in>set schema. 0 \<le> snd hc \<and> snd hc < 256"
  proof
    fix hc assume "hc \<in> set schema"
    then obtain j where "j < ?c" "schema ! j = hc"
      by (auto simp: in_set_conv_nth)
    with cols writable_column_dtype [of env "snd hc" "table_column ?c rows j"]
    show "0 \<le> snd hc \<and> snd hc < 256" by auto
  qed
  have "\<forall>b\<in>set blocks. length b \<le> 2 ^ 41"
    using bb by auto
  then have "sum_list (map length blocks) \<le> length blocks * 2 ^ 41"
    by (rule sum_list_bound)
  also have "\<dots> \<le> 2 ^ 16 * 2 ^ 41"
    using nc lb by (intro mult_le_mono1) simp
  finally have total: "length (concat blocks) \<le> 2 ^ 57"
    by (simp add: length_concat)
  have m0: "offset m = 0 \<and> compressed_size m < 2 ^ 41 \<and> uncompressed_size m < 2 ^ 39"
    if "m \<in> set metas0" for m
  proof -
    from that obtain j where j: "j < ?c" "metas0 ! j = m"
      using lm by (auto simp: in_set_conv_nth)
    from encode_columns_nth [OF enc lc j(1)] obtain un :: bytes where
      "metas0 ! j = \<lparr>name = fst (schema ! j), dtype = snd (schema ! j), offset = 0,
                      compressed_size = length (blocks ! j), uncompressed_size = length un\<rparr>"
      by blast
    with j(2) have "offset m = 0" "compressed_size m = length (blocks ! j)"
      by auto
    moreover have "length (blocks ! j) < 2 ^ 41"
      using bb j(1) lb by simp
    ultimately show ?thesis using mu that by simp
  qed
  have "\<exists>hb. build_header False schema metas0 = Inr hb"
    using lm names dts
  proof (rule build_header_ok)
    show "\<forall>m\<in>set metas0. offset m < 2 ^ 64 \<and> compressed_size m < 2 ^ 64
            \<and> uncompressed_size m < 2 ^ 64"
      using m0 by fastforce
  qed
  then obtain hc0 where h0: "build_header False schema metas0 = Inr hc0"
    by blast
  have l0: "length hc0 = directory_size schema"
    using h0 lm by (rule build_header_length)
  define p0 where "p0 = length MAGIC + 1 + 4 + 8 + 2 + length hc0"
  let ?metas = "assign_offsets p0 metas0"
  have pv: "p0 = 22 + directory_size schema"
    by (simp add: p0_def MAGIC_def l0)
  have m1: "offset m < 2 ^ 64 \<and> compressed_size m < 2 ^ 64 \<and> uncompressed_size m < 2 ^ 64"
    if "m \<in> set ?metas" for m
  proof -
    from that obtain j where j: "j < ?c" "?metas ! j = m"
      using lm by (auto simp: in_set_conv_nth)
    have a: "?metas ! j = (metas0 ! j)\<lparr>offset := p0 + sum_list (map compressed_size (take j metas0))\<rparr>"
      using j(1) lm by (intro assign_offsets_nth) simp
    have in0: "metas0 ! j \<in> set metas0"
      using j(1) lm by simp
    have "\<forall>x\<in>set (take j metas0). compressed_size x \<le> 2 ^ 41"
      using m0 by (auto dest!: in_set_takeD) (metis less_imp_le)
    then have "sum_list (map compressed_size (take j metas0)) \<le> length (take j metas0) * 2 ^ 41"
      by (rule sum_list_bound)
    also have "\<dots> \<le> 2 ^ 16 * 2 ^ 41"
      using nc j(1) lm by (intro mult_le_mono1) simp
    finally have s: "sum_list (map compressed_size (take j metas0)) \<le> 2 ^ 57"
      by simp
    have o: "offset m = p0 + sum_list (map compressed_size (take j metas0))"
      and c: "compressed_size m = compressed_size (metas0 ! j)"
      and u: "uncompressed_size m = uncompressed_size (metas0 ! j)"
      by (simp_all add: j(2) [symmetric] a)
    from m0 [OF in0] have "compressed_size (metas0 ! j) < 2 ^ 41"
      "uncompressed_size (metas0 ! j) < 2 ^ 39"
      by simp_all
    with s D show ?thesis
      unfolding o c u pv by simp
  qed
  have "\<exists>hb. build_header True schema ?metas = Inr hb"
    using _ names dts
  proof (rule build_header_ok)
    show "length ?metas = length schema" using lm by simp
    show "\<forall>m\<in>set ?metas. offset m < 2 ^ 64 \<and> compressed_size m < 2 ^ 64
            \<and> uncompressed_size m < 2 ^ 64"
      using m1 by blast
  qed
  then obtain hc where h1: "build_header True schema ?metas = Inr hc"
    by blast
  have l1: "length hc = directory_size schema"
    using h1 by (rule build_header_length) (simp add: lm)
  have v: "pack_u8 VERSION = Inr [1]"
    by (simp add: pack_u8_def pack_uint_def VERSION_def le_bytes_unfold)
  have "length hc < 256 ^ 4" using D l1 by simp
  then have hs: "pack_u32 (int (length hc)) = Inr (le_bytes 4 (length hc))"
    by (simp only: pack_u32_def pack_uint_Inr simp_thms)
  have "length rows < 256 ^ 8" using nr by simp
  then have pr: "pack_u64 (int (length rows)) = Inr (le_bytes 8 (length rows))"
    by (simp only: pack_u64_def pack_uint_Inr simp_thms)
  have "length ?metas < 256 ^ 2" using nc lm by simp
  then have pc: "pack_u16 (int (length ?metas)) = Inr (le_bytes 2 (length ?metas))"
    by (simp only: pack_u16_def pack_uint_Inr simp_thms)
  define f where "f = MAGIC @ [1] @ le_bytes 4 (length hc) @ le_bytes 8 (length rows)
                        @ le_bytes 2 (length ?metas) @ hc @ concat blocks"
  have w: "CCFWriter_write env schema rows = Inr f"
    unfolding CCFWriter_write_def Let_def enc
    by (simp only: ebind_def sum.case prod.case h0 p0_def [symmetric] h1 v hs pr pc f_def)
  have "length f = 22 + directory_size schema + length (concat blocks)"
    by (simp add: f_def MAGIC_def l1)
  with total D have "length f < 2 ^ 63"
    by simp
  with w show ?thesis by blast
qed

subsection \<open>Writing a table and reading a column back\<close>

lemma write_then_read_table:
  assumes "within_limits schema rows"
    and "\<forall>i<length schema.
           writable_column env (snd (schema ! i)) (table_column (length schema) rows i)"
    and "\<forall>x. zlib_decompress env (zlib_compress env x) = Inr x"
    and "\<forall>x. length (zlib_compress env x) \<le> 2 * length x + 64"
    and "j < length schema"
    and "\<forall>i<j. fst (schema ! i) \<noteq> fst (schema ! j)"
  shows "write_then_read env schema rows (fst (schema ! j)) =
           Inr (map (rendered env (snd (schema ! j))) (table_column (length schema) rows j))"
proof -
  from write_returns [OF assms(1,2,4)] obtain f where
    w: "CCFWriter_write env schema rows = Inr f" and small: "length f < 2 ^ 63"
    by blast
  from write_read_column [OF w small assms(3,5,6)] obtain rd where
    "read_header f = Inr rd"
    "read_column env rd (fst (schema ! j)) =
       Inr (map (\<lambda>r. rendered env (snd (schema ! j)) (cell r j)) rows)"
    by blast
  then show ?thesis
    using assms(5) by (simp add: write_then_read_def w ebind_def table_column_def fit_row_nth)
qed

lemma writable_columns_all:
  assumes "\<forall>i<c. i \<noteq> j \<longrightarrow> writable_column env (snd (schema ! i)) (table_column c rows i)"
    and "writable_column env (snd (schema ! j)) (table_column c rows j)"
  shows "\<forall>i<c. writable_column env (snd (schema ! i)) (table_column c rows i)"
  using assms by metis

lemma sample_codec_bound: "\<forall>x. length (zlib_compress sample_env x) \<le> 2 * length x + 64"
  by (simp add: sample_eval)

lemmas table_eval = within_limits_def writable_column_def table_column_def fit_row_def
  well_formed_def scalar_value_def utf8_size_def utf8_width_def int32_text_def
  replicate_unfold

subsection \<open>Integer columns\<close>

text \<open>
  C10: an \<^verbatim>\<open>INT32\<close> column keeps the integer and not its text. Where every non-empty
  value of the column is accepted by \<^verbatim>\<open>int\<close> with a value in the signed 32-bit range,
  writing the table and reading the column back gives, for each row, null for the
  empty string and otherwise the decimal rendering of the parsed value. \<^verbatim>\<open>int\<close>
  accepts \<^verbatim>\<open>"+5"\<close>, \<^verbatim>\<open>" 7 "\<close> and \<^verbatim>\<open>"1_000"\<close>, which so come back as \<^verbatim>\<open>"5"\<close>, \<^verbatim>\<open>"7"\<close>
  and \<^verbatim>\<open>"1000"\<close>.
  The table is within the limits of the format and its other columns hold values of
  their types, so that the write returns; the column is the first of its name in the
  schema, since \<^verbatim>\<open>read_column\<close> takes the first match; the codec decompresses what it
  compressed and at most doubles the data, up to 64 bytes.
\<close>

theorem int32_values_normalised:
  assumes "within_limits schema rows"
    and "\<forall>i<length schema. i \<noteq> j \<longrightarrow>
           writable_column env (snd (schema ! i)) (table_column (length schema) rows i)"
    and "\<forall>x. zlib_decompress env (zlib_compress env x) = Inr x"
    and "\<forall>x. length (zlib_compress env x) \<le> 2 * length x + 64"
    and "j < length schema"
    and "\<forall>i<j. fst (schema ! i) \<noteq> fst (schema ! j)"
    and "snd (schema ! j) = DT_INT32"
    and "\<forall>v\<in>set (table_column (length schema) rows j). v \<noteq> [] \<longrightarrow>
           (\<exists>n. py_int env v = Inr n \<and> - (2 ^ 31) \<le> n \<and> n < 2 ^ 31)"
  shows "write_then_read env schema rows (fst (schema ! j)) =
           Inr (map (\<lambda>v. if v = [] then None
                          else (case py_int env v of
                                  Inr n \<Rightarrow> Some (py_str n) | Inl e \<Rightarrow> None))
                  (table_column (length schema) rows j))
         \<and> py_int env (lit ''+5'') = Inr 5 \<and> py_str 5 = lit ''5''
         \<and> py_int env (lit '' 7 '') = Inr 7 \<and> py_str 7 = lit ''7''
         \<and> py_int env (lit ''1_000'') = Inr 1000 \<and> py_str 1000 = lit ''1000''"
proof -
  have "list_all (\<lambda>v. v = [] \<or> int32_text env v) (table_column (length schema) rows j)"
    using assms(8) by (auto simp: list_all_iff int32_text_def)
  then have "writable_column env (snd (schema ! j)) (table_column (length schema) rows j)"
    by (simp add: writable_column_def assms(7))
  with assms(2) have all: "\<forall>i<length schema.
      writable_column env (snd (schema ! i)) (table_column (length schema) rows i)"
    by (rule writable_columns_all)
  have "write_then_read env schema rows (fst (schema ! j)) =
           Inr (map (rendered env DT_INT32) (table_column (length schema) rows j))"
    using write_then_read_table [OF assms(1) all assms(3,4,5,6)] by (simp add: assms(7))
  moreover have "py_int env (lit ''+5'') = Inr 5" "py_int env (lit '' 7 '') = Inr 7"
    "py_int env (lit ''1_000'') = Inr 1000"
    by (simp_all add: py_int_eval)
  moreover have "py_str 5 = lit ''5''" "py_str 7 = lit ''7''" "py_str 1000 = lit ''1000''"
    by (simp_all add: py_str_def nat_digits.simps lit_def)
  ultimately show ?thesis
    by (simp add: rendered_def)
qed

theorem int32_values_normalised_witness:
  "write_then_read sample_env [(lit ''n'', DT_INT32)]
     [[lit ''+5''], [lit '' 7 ''], [lit ''1_000''], [lit ''''], [lit ''-2147483648'']]
     (lit ''n'')
   = Inr [Some (lit ''5''), Some (lit ''7''), Some (lit ''1000''), None,
          Some (lit ''-2147483648'')]"
proof -
  let ?schema = "[(lit ''n'', DT_INT32)]"
  let ?rows = "[[lit ''+5''], [lit '' 7 ''], [lit ''1_000''], [lit ''''],
                [lit ''-2147483648'']]"
  have 1: "within_limits ?schema ?rows"
    by (simp add: table_eval lit_def)
  have 2: "\<forall>i<length ?schema. i \<noteq> 0 \<longrightarrow>
           writable_column sample_env (snd (?schema ! i)) (table_column (length ?schema) ?rows i)"
    by simp
  have 5: "0 < length ?schema" by simp
  have 6: "\<forall>i<0. fst (?schema ! i) \<noteq> fst (?schema ! 0)" by simp
  have 7: "snd (?schema ! 0) = DT_INT32" by simp
  have 8: "\<forall>v\<in>set (table_column (length ?schema) ?rows 0). v \<noteq> [] \<longrightarrow>
           (\<exists>n. py_int sample_env v = Inr n \<and> - (2 ^ 31) \<le> n \<and> n < 2 ^ 31)"
    by (simp add: table_eval py_int_eval sample_eval)
  show ?thesis
    using int32_values_normalised [OF 1 2 sample_codec sample_codec_bound 5 6 7 8]
    by (simp add: table_eval py_int_eval sample_eval py_str_def nat_digits.simps)
qed

text \<open>
  C1: for a column declared \<^verbatim>\<open>INT32\<close> whose non-empty values are decimal renderings
  of integers in the signed 32-bit range, writing the table and reading the column
  back by its name returns one element for each row: null where the text was empty,
  the text itself elsewhere. For \<^verbatim>\<open>["30", "", "42", "7"]\<close> the result is
  \<^verbatim>\<open>["30", None, "42", "7"]\<close>.
  The table is within the limits of the format and its other columns hold values of
  their types, so that the write returns; the column is the first of its name in the
  schema, since \<^verbatim>\<open>read_column\<close> takes the first match; the codec decompresses what it
  compressed and at most doubles the data, up to 64 bytes.
\<close>

theorem int32_round_trip:
  assumes "within_limits schema rows"
    and "\<forall>i<length schema. i \<noteq> j \<longrightarrow>
           writable_column env (snd (schema ! i)) (table_column (length schema) rows i)"
    and "\<forall>x. zlib_decompress env (zlib_compress env x) = Inr x"
    and "\<forall>x. length (zlib_compress env x) \<le> 2 * length x + 64"
    and "j < length schema"
    and "\<forall>i<j. fst (schema ! i) \<noteq> fst (schema ! j)"
    and "snd (schema ! j) = DT_INT32"
    and "\<forall>v\<in>set (table_column (length schema) rows j). v = [] \<or>
           (\<exists>n. - (2 ^ 31) \<le> n \<and> n < 2 ^ 31 \<and> v = py_str n)"
  shows "write_then_read env schema rows (fst (schema ! j)) =
           Inr (map (\<lambda>v. if v = [] then None else Some v)
                  (table_column (length schema) rows j))
         \<and> length (map (\<lambda>v. if v = [] then None else Some v)
                     (table_column (length schema) rows j)) = length rows
         \<and> write_then_read sample_env [(lit ''age'', DT_INT32)]
              [[lit ''30''], [lit ''''], [lit ''42''], [lit ''7'']] (lit ''age'')
             = Inr [Some (lit ''30''), None, Some (lit ''42''), Some (lit ''7'')]"
proof -
  let ?col = "table_column (length schema) rows j"
  have p: "py_int env v = Inr n" if "- (2 ^ 31) \<le> n" "n < 2 ^ 31" "v = py_str n" for v n
    unfolding that(3) using that(1,2) by (intro py_int_py_str) simp_all
  have "list_all (\<lambda>v. v = [] \<or> int32_text env v) ?col"
    unfolding list_all_iff
  proof
    fix v assume "v \<in> set ?col"
    with assms(8) have "v = [] \<or> (\<exists>n. - (2 ^ 31) \<le> n \<and> n < 2 ^ 31 \<and> v = py_str n)"
      by blast
    then show "v = [] \<or> int32_text env v"
      using p by (auto simp: int32_text_def)
  qed
  then have "writable_column env (snd (schema ! j)) ?col"
    by (simp add: writable_column_def assms(7))
  with assms(2) have all: "\<forall>i<length schema.
      writable_column env (snd (schema ! i)) (table_column (length schema) rows i)"
    by (rule writable_columns_all)
  have r: "rendered env DT_INT32 v = (if v = [] then None else Some v)" if "v \<in> set ?col" for v
  proof (cases "v = []")
    case True
    then show ?thesis by (simp add: rendered_def)
  next
    case False
    with assms(8) that obtain n where n: "- (2 ^ 31) \<le> n" "n < 2 ^ 31" "v = py_str n"
      by blast
    from p [OF n] False n(3) show ?thesis by (simp add: rendered_def)
  qed
  have "write_then_read env schema rows (fst (schema ! j)) =
           Inr (map (rendered env DT_INT32) ?col)"
    using write_then_read_table [OF assms(1) all assms(3,4,5,6)] by (simp add: assms(7))
  also have "map (rendered env DT_INT32) ?col = map (\<lambda>v. if v = [] then None else Some v) ?col"
    using r by (intro map_cong) simp_all
  finally have g: "write_then_read env schema rows (fst (schema ! j)) =
           Inr (map (\<lambda>v. if v = [] then None else Some v) ?col)" .
  have e: "write_then_read sample_env [(lit ''age'', DT_INT32)]
              [[lit ''30''], [lit ''''], [lit ''42''], [lit ''7'']] (lit ''age'')
             = Inr [Some (lit ''30''), None, Some (lit ''42''), Some (lit ''7'')]"
    by (simp add: writer_eval codec_eval sample_eval py_int_eval reader_eval)
  from g e show ?thesis by (simp add: table_column_def)
qed

theorem int32_round_trip_witness:
  "write_then_read sample_env [(lit ''t'', DT_STRING), (lit ''n'', DT_INT32)]
     [[lit ''x'', lit ''-2147483648''], [lit ''y''], [lit ''z'', lit ''2147483647'']] (lit ''n'')
   = Inr [Some (lit ''-2147483648''), None, Some (lit ''2147483647'')]"
proof -
  let ?schema = "[(lit ''t'', DT_STRING), (lit ''n'', DT_INT32)]"
  let ?rows = "[[lit ''x'', lit ''-2147483648''], [lit ''y''], [lit ''z'', lit ''2147483647'']]"
  have s: "py_str (- 2147483648) = lit ''-2147483648''" "py_str 2147483647 = lit ''2147483647''"
    by (simp_all add: py_str_def nat_digits.simps lit_def)
  have 1: "within_limits ?schema ?rows"
    by (simp add: table_eval lit_def)
  have w0: "writable_column sample_env (snd (?schema ! 0)) (table_column (length ?schema) ?rows 0)"
    by (simp add: table_eval lit_def DT_INT32_def DT_FLOAT64_def DT_STRING_def)
  have 2: "\<forall>i<length ?schema. i \<noteq> 1 \<longrightarrow>
           writable_column sample_env (snd (?schema ! i)) (table_column (length ?schema) ?rows i)"
  proof (intro allI impI)
    fix i :: nat assume "i < length ?schema" "i \<noteq> 1"
    then have "i = 0" by simp
    with w0 show "writable_column sample_env (snd (?schema ! i))
                    (table_column (length ?schema) ?rows i)"
      by simp
  qed
  have 5: "1 < length ?schema" by simp
  have 6: "\<forall>i<1. fst (?schema ! i) \<noteq> fst (?schema ! 1)" by (simp add: lit_def)
  have 7: "snd (?schema ! 1) = DT_INT32" by simp
  have c: "table_column (length ?schema) ?rows 1 = [lit ''-2147483648'', [], lit ''2147483647'']"
    by (simp add: table_column_def fit_row_def replicate_unfold)
  have 8: "\<forall>v\<in>set (table_column (length ?schema) ?rows 1). v = [] \<or>
           (\<exists>n. - (2 ^ 31) \<le> n \<and> n < 2 ^ 31 \<and> v = py_str n)"
  proof -
    have a: "\<exists>n. - (2 ^ 31) \<le> n \<and> n < 2 ^ 31 \<and> lit ''-2147483648'' = py_str n"
      by (rule exI [of _ "- 2147483648"]) (simp add: s)
    have b: "\<exists>n. - (2 ^ 31) \<le> n \<and> n < 2 ^ 31 \<and> lit ''2147483647'' = py_str n"
      by (rule exI [of _ 2147483647]) (simp add: s)
    from a b show ?thesis unfolding c by simp
  qed
  show ?thesis
    using int32_round_trip [OF 1 2 sample_codec sample_codec_bound 5 6 7 8]
    unfolding c by (simp add: lit_def)
qed

subsection \<open>String columns\<close>

text \<open>
  C2: for a column declared \<^verbatim>\<open>STRING\<close>, writing the table and reading the column back
  by its name returns the values row by row, null where the text was empty. The
  values are well-formed Unicode (a \<^verbatim>\<open>str\<close> holding a surrogate has no UTF-8 form) and
  take less than \<open>2^32\<close> bytes together, the range of an offset. For the values
  \<^verbatim>\<open>["alice", "", "bob", "carol"]\<close> the encoder computes the offsets
  \<^verbatim>\<open>[0, 5, 5, 8, 13]\<close> and the 13 bytes of \<^verbatim>\<open>alicebobcarol\<close>, and the uncompressed
  buffer is the bitmap length, the bitmap, these offsets and this payload.
  The table is within the limits of the format and its other columns hold values of
  their types, so that the write returns; the column is the first of its name in the
  schema, since \<^verbatim>\<open>read_column\<close> takes the first match; the codec decompresses what it
  compressed and at most doubles the data, up to 64 bytes.
\<close>

theorem string_round_trip:
  assumes "within_limits schema rows"
    and "\<forall>i<length schema. i \<noteq> j \<longrightarrow>
           writable_column env (snd (schema ! i)) (table_column (length schema) rows i)"
    and "\<forall>x. zlib_decompress env (zlib_compress env x) = Inr x"
    and "\<forall>x. length (zlib_compress env x) \<le> 2 * length x + 64"
    and "j < length schema"
    and "\<forall>i<j. fst (schema ! i) \<noteq> fst (schema ! j)"
    and "snd (schema ! j) = DT_STRING"
    and "\<forall>v\<in>set (table_column (length schema) rows j). well_formed v"
    and "sum_list (map utf8_size (table_column (length schema) rows j)) < 2 ^ 32"
  shows "write_then_read env schema rows (fst (schema ! j)) =
           Inr (map (\<lambda>v. if v = [] then None else Some v)
                  (table_column (length schema) rows j))
         \<and> string_offsets [lit ''alice'', lit '''', lit ''bob'', lit ''carol''] [0] [] =
             Inr ([0, 5, 5, 8, 13],
                  [97, 108, 105, 99, 101, 98, 111, 98, 99, 97, 114, 111, 108])
         \<and> utf8_encode (lit ''alicebobcarol'') =
             Inr [97, 108, 105, 99, 101, 98, 111, 98, 99, 97, 114, 111, 108]
         \<and> column_buffer env 4 DT_STRING [lit ''alice'', lit '''', lit ''bob'', lit ''carol''] =
             Inr ([1, 0, 0, 0] @ [2]
                  @ [0, 0, 0, 0, 5, 0, 0, 0, 5, 0, 0, 0, 8, 0, 0, 0, 13, 0, 0, 0]
                  @ [97, 108, 105, 99, 101, 98, 111, 98, 99, 97, 114, 111, 108])"
proof -
  let ?col = "table_column (length schema) rows j"
  have "writable_column env (snd (schema ! j)) ?col"
    using assms(8,9)
    by (simp add: writable_column_def assms(7) list_all_iff dtypes_distinct [symmetric])
  with assms(2) have all: "\<forall>i<length schema.
      writable_column env (snd (schema ! i)) (table_column (length schema) rows i)"
    by (rule writable_columns_all)
  have "rendered env DT_STRING v = (if v = [] then None else Some v)" for v
    by (simp add: rendered_def DT_STRING_def DT_INT32_def DT_FLOAT64_def)
  then have g: "write_then_read env schema rows (fst (schema ! j)) =
           Inr (map (\<lambda>v. if v = [] then None else Some v) ?col)"
    using write_then_read_table [OF assms(1) all assms(3,4,5,6)] by (simp add: assms(7))
  have o: "string_offsets [lit ''alice'', lit '''', lit ''bob'', lit ''carol''] [0] [] =
             Inr ([0, 5, 5, 8, 13],
                  [97, 108, 105, 99, 101, 98, 111, 98, 99, 97, 114, 111, 108])"
    by (simp add: codec_eval lit_def)
  have u: "utf8_encode (lit ''alicebobcarol'') =
             Inr [97, 108, 105, 99, 101, 98, 111, 98, 99, 97, 114, 111, 108]"
    by (simp add: codec_eval lit_def)
  have b: "column_buffer env 4 DT_STRING [lit ''alice'', lit '''', lit ''bob'', lit ''carol''] =
             Inr ([1, 0, 0, 0] @ [2]
                  @ [0, 0, 0, 0, 5, 0, 0, 0, 5, 0, 0, 0, 8, 0, 0, 0, 13, 0, 0, 0]
                  @ [97, 108, 105, 99, 101, 98, 111, 98, 99, 97, 114, 111, 108])"
    by (simp add: writer_eval codec_eval lit_def)
  from g o u b show ?thesis by simp
qed

theorem string_round_trip_witness:
  "write_then_read sample_env [(lit ''name'', DT_STRING)]
     [[lit ''alice''], [lit ''''], [lit ''bob''], [lit ''carol''], [[0xE9, 0x20AC, 0x1F600]]]
     (lit ''name'')
   = Inr [Some (lit ''alice''), None, Some (lit ''bob''), Some (lit ''carol''),
          Some [0xE9, 0x20AC, 0x1F600]]"
proof -
  let ?schema = "[(lit ''name'', DT_STRING)]"
  let ?rows = "[[lit ''alice''], [lit ''''], [lit ''bob''], [lit ''carol''],
                [[0xE9, 0x20AC, 0x1F600]]]"
  have 1: "within_limits ?schema ?rows"
    by (simp add: table_eval lit_def)
  have 2: "\<forall>i<length ?schema. i \<noteq> 0 \<longrightarrow>
           writable_column sample_env (snd (?schema ! i)) (table_column (length ?schema) ?rows i)"
    by simp
  have 5: "0 < length ?schema" by simp
  have 6: "\<forall>i<0. fst (?schema ! i) \<noteq> fst (?schema ! 0)" by simp
  have 7: "snd (?schema ! 0) = DT_STRING" by simp
  have 8: "\<forall>v\<in>set (table_column (length ?schema) ?rows 0). well_formed v"
    by (simp add: table_eval lit_def)
  have 9: "sum_list (map utf8_size (table_column (length ?schema) ?rows 0)) < 2 ^ 32"
    by (simp add: table_eval lit_def)
  show ?thesis
    using string_round_trip [OF 1 2 sample_codec sample_codec_bound 5 6 7 8 9]
    by (simp add: table_eval lit_def)
qed

subsection \<open>Floating-point columns\<close>

lemma finite_samples:
  "finite_f64 0x3FF8000000000000" "finite_f64 0x4000000000000000" "finite_f64 0xC00A000000000000"
  by (simp_all add: finite_f64_def)

lemma read_float64s_unfold:
  "read_float64s env null_bitmap i n buf =
     (if n = 0 then Inr []
      else (case f_read buf 8 of
        (d, buf') \<Rightarrow>
          ebind (unpack_f64 d)
            (\<lambda>v. ebind (is_null null_bitmap i)
                   (\<lambda>nl. ebind (read_float64s env null_bitmap (i + 1) (n - 1) buf')
                          (\<lambda>values. Inr ((if nl then None else Some (float_repr env v))
                                           # values))))))"
  by (cases n) simp_all

text \<open>
  C9: for a column declared \<^verbatim>\<open>FLOAT64\<close> whose non-empty values parse to finite
  doubles, writing the table and reading the column back returns one element for each
  row: null where the text was empty, and elsewhere a text that \<^verbatim>\<open>float\<close> parses to
  the very double the input text parsed to. The column stores the 64 bits of
  \<^verbatim>\<open>float(v)\<close> and the reader returns \<^verbatim>\<open>repr\<close> of the same bits; that \<^verbatim>\<open>float\<close> reads
  back what \<^verbatim>\<open>repr\<close> writes of a finite double is the guarantee of the two library
  functions, assumed here of the doubles of the column.
  The table is within the limits of the format and its other columns hold values of
  their types, so that the write returns; the column is the first of its name in the
  schema, since \<^verbatim>\<open>read_column\<close> takes the first match; the codec decompresses what it
  compressed and at most doubles the data, up to 64 bytes.
\<close>

theorem float64_round_trip:
  assumes "within_limits schema rows"
    and "\<forall>i<length schema. i \<noteq> j \<longrightarrow>
           writable_column env (snd (schema ! i)) (table_column (length schema) rows i)"
    and "\<forall>x. zlib_decompress env (zlib_compress env x) = Inr x"
    and "\<forall>x. length (zlib_compress env x) \<le> 2 * length x + 64"
    and "j < length schema"
    and "\<forall>i<j. fst (schema ! i) \<noteq> fst (schema ! j)"
    and "snd (schema ! j) = DT_FLOAT64"
    and "\<forall>v\<in>set (table_column (length schema) rows j). v \<noteq> [] \<longrightarrow>
           (\<exists>w. float_of_str env v = Some w \<and> finite_f64 w)"
    and "\<forall>v\<in>set (table_column (length schema) rows j). \<forall>w.
           float_of_str env v = Some w \<longrightarrow> finite_f64 w \<longrightarrow>
           float_of_str env (float_repr env w) = Some w"
  shows "\<exists>out. write_then_read env schema rows (fst (schema ! j)) = Inr out
           \<and> length out = length rows
           \<and> (\<forall>i<length rows.
                 (table_column (length schema) rows j ! i = [] \<longrightarrow> out ! i = None)
               \<and> (table_column (length schema) rows j ! i \<noteq> [] \<longrightarrow>
                    (\<exists>t w. out ! i = Some t
                       \<and> float_of_str env (table_column (length schema) rows j ! i) = Some w
                       \<and> float_of_str env t = Some w)))"
proof -
  let ?col = "table_column (length schema) rows j"
  have lc: "length ?col = length rows"
    by (simp add: table_column_def)
  have "list_all (\<lambda>v. v = [] \<or> parses_float env v) ?col"
    using assms(8) by (auto simp: list_all_iff parses_float_def)
  then have "writable_column env (snd (schema ! j)) ?col"
    by (simp add: writable_column_def assms(7) dtypes_distinct [symmetric])
  with assms(2) have all: "\<forall>i<length schema.
      writable_column env (snd (schema ! i)) (table_column (length schema) rows i)"
    by (rule writable_columns_all)
  have g: "write_then_read env schema rows (fst (schema ! j)) =
           Inr (map (rendered env DT_FLOAT64) ?col)"
    using write_then_read_table [OF assms(1) all assms(3,4,5,6)] by (simp add: assms(7))
  have r0: "rendered env DT_FLOAT64 [] = None"
    by (simp add: rendered_def)
  have r1: "\<exists>t w. rendered env DT_FLOAT64 v = Some t \<and> float_of_str env v = Some w
              \<and> float_of_str env t = Some w"
    if "v \<in> set ?col" "v \<noteq> []" for v
  proof -
    from assms(8) that obtain w where w: "float_of_str env v = Some w" "finite_f64 w"
      by blast
    from assms(9) that(1) w have "float_of_str env (float_repr env w) = Some w"
      by blast
    with w(1) that(2) show ?thesis
      by (simp add: rendered_def dtypes_distinct [symmetric])
  qed
  let ?out = "map (rendered env DT_FLOAT64) ?col"
  have c: "(?col ! i = [] \<longrightarrow> ?out ! i = None)
         \<and> (?col ! i \<noteq> [] \<longrightarrow>
              (\<exists>t w. ?out ! i = Some t \<and> float_of_str env (?col ! i) = Some w
                 \<and> float_of_str env t = Some w))"
    if i: "i < length rows" for i
  proof (cases "?col ! i = []")
    case True
    then show ?thesis using i lc by (simp add: r0)
  next
    case False
    from i lc have "?col ! i \<in> set ?col" by simp
    from r1 [OF this False] obtain t w where
      "rendered env DT_FLOAT64 (?col ! i) = Some t" "float_of_str env (?col ! i) = Some w"
      "float_of_str env t = Some w"
      by blast
    with False show ?thesis
      using i lc by simp
  qed
  have "write_then_read env schema rows (fst (schema ! j)) = Inr ?out
        \<and> length ?out = length rows
        \<and> (\<forall>i<length rows.
                 (?col ! i = [] \<longrightarrow> ?out ! i = None)
               \<and> (?col ! i \<noteq> [] \<longrightarrow>
                    (\<exists>t w. ?out ! i = Some t
                       \<and> float_of_str env (?col ! i) = Some w
                       \<and> float_of_str env t = Some w)))"
    using g lc c by simp
  then show ?thesis by (rule exI)
qed

theorem float64_round_trip_witness:
  "write_then_read sample_env [(lit ''x'', DT_FLOAT64)]
     [[lit ''1.5''], [lit ''2''], [lit ''''], [lit ''-3.25'']] (lit ''x'')
   = Inr [Some (lit ''1.5''), Some (lit ''2.0''), None, Some (lit ''-3.25'')]
   \<and> float_of_str sample_env (lit ''2.0'') = float_of_str sample_env (lit ''2'')"
proof -
  let ?schema = "[(lit ''x'', DT_FLOAT64)]"
  let ?rows = "[[lit ''1.5''], [lit ''2''], [lit ''''], [lit ''-3.25'']]"
  have 1: "within_limits ?schema ?rows"
    by (simp add: table_eval lit_def)
  have 2: "\<forall>i<length ?schema. i \<noteq> 0 \<longrightarrow>
           writable_column sample_env (snd (?schema ! i)) (table_column (length ?schema) ?rows i)"
    by simp
  have 5: "0 < length ?schema" by simp
  have 6: "\<forall>i<0. fst (?schema ! i) \<noteq> fst (?schema ! 0)" by simp
  have 7: "snd (?schema ! 0) = DT_FLOAT64" by simp
  have c: "table_column (length ?schema) ?rows 0 = [lit ''1.5'', lit ''2'', [], lit ''-3.25'']"
    by (simp add: table_column_def fit_row_def lit_def)
  have f: "float_of_str sample_env (lit ''1.5'') = Some 0x3FF8000000000000"
    "float_of_str sample_env (lit ''2'') = Some 0x4000000000000000"
    "float_of_str sample_env (lit ''-3.25'') = Some 0xC00A000000000000"
    "float_of_str sample_env (lit ''2.0'') = Some 0x4000000000000000"
    by (simp_all add: sample_eval lit_def)
  have r: "float_repr sample_env 0x3FF8000000000000 = lit ''1.5''"
    "float_repr sample_env 0x4000000000000000 = lit ''2.0''"
    "float_repr sample_env 0xC00A000000000000 = lit ''-3.25''"
    by (simp_all add: sample_eval)
  have 8: "\<forall>v\<in>set (table_column (length ?schema) ?rows 0). v \<noteq> [] \<longrightarrow>
           (\<exists>w. float_of_str sample_env v = Some w \<and> finite_f64 w)"
    unfolding c by (simp add: f finite_samples)
  have 9: "\<forall>v\<in>set (table_column (length ?schema) ?rows 0). \<forall>w.
           float_of_str sample_env v = Some w \<longrightarrow> finite_f64 w \<longrightarrow>
           float_of_str sample_env (float_repr sample_env w) = Some w"
    unfolding c by (auto simp: f r) (simp_all add: sample_eval lit_def)
  from float64_round_trip [OF 1 2 sample_codec sample_codec_bound 5 6 7 8 9]
  obtain out where o: "write_then_read sample_env ?schema ?rows (fst (?schema ! 0)) = Inr out"
    and a: "\<forall>i<length ?rows.
              (table_column (length ?schema) ?rows 0 ! i = [] \<longrightarrow> out ! i = None)
            \<and> (table_column (length ?schema) ?rows 0 ! i \<noteq> [] \<longrightarrow>
                 (\<exists>t w. out ! i = Some t
                    \<and> float_of_str sample_env (table_column (length ?schema) ?rows 0 ! i) = Some w
                    \<and> float_of_str sample_env t = Some w))"
    by blast
  have e: "write_then_read sample_env ?schema ?rows (lit ''x'')
             = Inr [Some (lit ''1.5''), Some (lit ''2.0''), None, Some (lit ''-3.25'')]"
    by (simp add: writer_eval codec_eval sample_eval reader_eval read_float64s_unfold lit_def)
  from o e have out: "out = [Some (lit ''1.5''), Some (lit ''2.0''), None, Some (lit ''-3.25'')]"
    by simp
  from a [rule_format, of 1] obtain t w where
    "out ! 1 = Some t" "float_of_str sample_env (lit ''2'') = Some w"
    "float_of_str sample_env t = Some w"
    unfolding c by (auto simp: lit_def)
  then have "float_of_str sample_env (lit ''2.0'') = float_of_str sample_env (lit ''2'')"
    unfolding out by simp
  with e show ?thesis by simp
qed

end
